theory Spec2Isabelle
  imports Complex_Main
begin

section \<open>Pro-Lite PDF Viewer: the tab controller of \<open>pdf_viewer.py\<close>\<close>

text \<open>
  A shallow embedding of the classes \<open>PDFPageItem\<close>, \<open>PDFTab\<close> and of
  \<open>ProPDFViewer.save_overwrite\<close>. Python floats are modelled as exact reals, pointer
  positions as pairs of integers. The rendering engine (PyMuPDF) and the GUI toolkit (Qt)
  are collaborators outside the repository: what they return is a field of the records
  \<open>engine\<close>, \<open>page\<close> and \<open>view\<close> below, so every theorem holds for every
  engine and every viewport.
\<close>

subsection \<open>Geometry and engine data\<close>

type_synonym point = "real \<times> real"

text \<open>\<open>fitz.Rect\<close> and \<open>fitz.Quad\<close> (corners upper-left, upper-right, lower-left, lower-right).\<close>

record frect =
  x0 :: real
  y0 :: real
  x1 :: real
  y1 :: real

record quad =
  ul :: point
  ur :: point
  ll :: point
  lr :: point

text \<open>\<open>fitz.Pixmap\<close>: the fields \<open>update_render\<close> reads.\<close>

record pixmap =
  samples :: "nat list"
  alpha :: bool
  pix_width :: int
  pix_height :: int
  stride :: int

datatype image_format = Format_RGBA8888 | Format_RGB888

text \<open>The \<open>QImage\<close> built by \<open>update_render\<close>, tagged with the device pixel ratio.\<close>

record qimage =
  img_data :: "nat list"
  img_width :: int
  img_height :: int
  img_stride :: int
  img_format :: image_format
  img_dpr :: real

text \<open>
  An annotation of a page: \<open>annot.type[0]\<close> (8 is a highlight), \<open>annot.rect\<close>, and the
  stroke colour set by \<open>set_colors\<close>.
\<close>

record annot =
  annot_type :: nat
  annot_rect :: frect
  annot_stroke :: "real \<times> real \<times> real"

text \<open>
  The list \<open>selected_quads\<close> holds either quads (linear selection, or the quads found in a
  box) or the single rectangle \<open>[pdf_rect]\<close> stored by \<open>process_box_menu\<close>.
\<close>

datatype selection = SelQuads "quad list" | SelRect frect

text \<open>
  One page of the open document, as the engine presents it. A result \<open>None\<close> or \<open>Inl e\<close>
  stands for a call that raises. \<open>annots\<close> is the chain \<open>first_annot\<close>, \<open>next\<close>, ... in
  insertion order.
\<close>

record page =
  rect_width :: real
  annots :: "annot list"
  get_pixmap :: "annot list \<Rightarrow> real \<Rightarrow> string + pixmap"
  get_quads :: "quad list option"
  get_quads_clip :: "frect \<Rightarrow> quad list option"
  get_text_clip :: "frect \<Rightarrow> string option"
  add_highlight_annot :: "selection \<Rightarrow> annot option"

text \<open>Engine functions that do not depend on the page: \<open>Rect.contains(Point)\<close> and \<open>Quad.rect\<close>.\<close>

record engine =
  rect_contains :: "frect \<Rightarrow> point \<Rightarrow> bool"
  quad_rect :: "quad \<Rightarrow> frect"

text \<open>\<open>QRectF\<close>: corner, width and height.\<close>

record qrectf =
  rx :: real
  ry :: real
  rw :: real
  rh :: real

text \<open>
  The viewport and the toolkit's geometry: the size of the view, its device pixel ratio,
  \<open>QGraphicsView.mapToScene\<close> on a point and on a rectangle (the bounding rectangle of
  the mapped polygon), \<open>QRectF.contains\<close> and \<open>QRectF.intersected\<close>.
\<close>

record view =
  view_width :: int
  view_height :: int
  dpr :: real
  mapToScene :: "int \<times> int \<Rightarrow> point"
  mapRectToScene :: "int \<times> int \<times> int \<times> int \<Rightarrow> qrectf"
  rectf_contains :: "qrectf \<Rightarrow> point \<Rightarrow> bool"
  rectf_intersected :: "qrectf \<Rightarrow> qrectf \<Rightarrow> qrectf"

subsection \<open>Decimal formatting of f-strings\<close>

definition digit :: "nat \<Rightarrow> char" where
  "digit d = ''0123456789'' ! d"

function show_nat :: "nat \<Rightarrow> string" where
  "show_nat n = (if n < 10 then [digit n] else show_nat (n div 10) @ [digit (n mod 10)])"
  by pat_completeness auto
termination
  by (relation "measure id") auto

declare show_nat.simps [simp del]

subsection \<open>PDFPageItem\<close>

text \<open>
  The page object of an item is the page \<open>page_num\<close> of the tab's document. \<open>in_scene\<close>
  is \<open>item.scene() is not None\<close>.
\<close>

record page_item =
  page_num :: nat
  item_pixmap :: "qimage option"
  item_pos :: point
  in_scene :: bool

text \<open>\<open>boundingRect()\<close> of a pixmap item: empty for a null pixmap, else the image size over its pixel ratio.\<close>

definition item_w :: "page_item \<Rightarrow> real" where
  "item_w it = (case item_pixmap it of None \<Rightarrow> 0 | Some im \<Rightarrow> real_of_int (img_width im) / img_dpr im)"

definition item_h :: "page_item \<Rightarrow> real" where
  "item_h it = (case item_pixmap it of None \<Rightarrow> 0 | Some im \<Rightarrow> real_of_int (img_height im) / img_dpr im)"

definition sceneBoundingRect :: "page_item \<Rightarrow> qrectf" where
  "sceneBoundingRect it =
     \<lparr>rx = fst (item_pos it), ry = snd (item_pos it), rw = item_w it, rh = item_h it\<rparr>"

text \<open>\<open>item.mapFromScene\<close>: items carry no transformation, only a position.\<close>

definition mapFromScene :: "page_item \<Rightarrow> point \<Rightarrow> point" where
  "mapFromScene it p = (fst p - fst (item_pos it), snd p - snd (item_pos it))"

definition new_item :: "nat \<Rightarrow> page_item" where
  "new_item i = \<lparr>page_num = i, item_pixmap = None, item_pos = (0, 0), in_scene = False\<rparr>"

definition render_error :: "page_item \<Rightarrow> string \<Rightarrow> string" where
  "render_error it e = ''Render Error on page '' @ show_nat (page_num it) @ '': '' @ e"

definition deleted_msg :: string where
  "deleted_msg = ''wrapped C/C++ object of type PDFPageItem has been deleted''"

text \<open>
  \<open>update_render\<close>: the item after the call and the lines printed. An exception of the
  engine is caught and printed; empty \<open>samples\<close> return before the pixmap is set.
  \<open>live\<close> is false for an item that \<open>scene.clear()\<close> has deleted: \<open>setPixmap\<close> then
  raises a \<open>RuntimeError\<close>, which the same handler prints.
\<close>

definition update_render :: "page \<Rightarrow> page_item \<Rightarrow> bool \<Rightarrow> real \<Rightarrow> real \<Rightarrow> page_item \<times> string list" where
  "update_render pg it live sc d =
     (case get_pixmap pg (annots pg) (sc * d) of
        Inl e \<Rightarrow> (it, [render_error it e])
      | Inr pix \<Rightarrow>
          if samples pix = [] then (it, [])
          else if \<not> live then (it, [render_error it deleted_msg])
          else (it\<lparr>item_pixmap := Some \<lparr>img_data = samples pix, img_width = pix_width pix,
                     img_height = pix_height pix, img_stride = stride pix,
                     img_format = (if alpha pix then Format_RGBA8888 else Format_RGB888),
                     img_dpr = d\<rparr>\<rparr>, []))"

subsection \<open>PDFTab: state\<close>

datatype view_mode = Single | Dual

datatype tool_mode = Browse | Select | Highlight | Erase

datatype signal = Zoom_changed real | Page_changed string

text \<open>
  \<open>start_selection_page\<close> refers to an item: the scene generation in which the item was
  created, its index in \<open>page_items\<close>, and the number of its page (the Python attribute
  \<open>page_obj\<close>, which outlives the item). \<open>render_pages\<close> clears the scene and starts a
  new generation; a reference of an older generation is to a deleted item.
\<close>

record item_ref =
  ref_gen :: nat
  ref_index :: nat
  ref_page :: nat

text \<open>
  \<open>rubberband\<close> is the geometry of the rubber band, a \<open>QRect\<close> with corners
  \<open>(xa, ya, xb, yb)\<close>, both inclusive.
\<close>

record tab =
  doc :: "page list option"
  current_path :: "string option"
  scale :: real
  view_mode :: view_mode
  tool_mode :: tool_mode
  highlight_color :: "real \<times> real \<times> real"
  page_items :: "page_item list"
  scene_gen :: nat
  start_selection_page :: "item_ref option"
  page_quads_cache :: "quad list"
  sel_start_index :: int
  sel_end_index :: int
  selected_quads :: selection
  use_linear_selection :: bool
  origin_point :: "int \<times> int"
  rubberband :: "int \<times> int \<times> int \<times> int"
  rubberband_shown :: bool
  selection_overlay :: "point list list"
  emitted :: "signal list"
  printed :: "string list"
  clipboard :: string

text \<open>The state set up by \<open>PDFTab.__init__\<close>; the rubber band starts with the toolkit's geometry \<open>rb\<close>.\<close>

definition init_tab :: "int \<times> int \<times> int \<times> int \<Rightarrow> tab" where
  "init_tab rb =
     \<lparr>doc = None, current_path = None, scale = 1.0, view_mode = Single, tool_mode = Browse,
      highlight_color = (1, 1, 0), page_items = [], scene_gen = 0, start_selection_page = None,
      page_quads_cache = [], sel_start_index = - 1, sel_end_index = - 1,
      selected_quads = SelQuads [], use_linear_selection = False, origin_point = (0, 0),
      rubberband = rb, rubberband_shown = False, selection_overlay = [], emitted = [],
      printed = [], clipboard = []\<rparr>"

text \<open>\<open>not self.doc\<close>: a \<open>fitz.Document\<close> has a length, so a document without pages is falsy too.\<close>

definition no_doc :: "tab \<Rightarrow> bool" where
  "no_doc t = (case doc t of None \<Rightarrow> True | Some pgs \<Rightarrow> pgs = [])"

text \<open>The item a reference stands for, while it is alive.\<close>

definition deref :: "tab \<Rightarrow> item_ref \<Rightarrow> page_item option" where
  "deref t r =
     (if ref_gen r = scene_gen t \<and> ref_index r < length (page_items t)
      then Some (page_items t ! ref_index r)
      else None)"

text \<open>The page object of page number \<open>k\<close>.\<close>

definition page_obj :: "tab \<Rightarrow> nat \<Rightarrow> page option" where
  "page_obj t k =
     (case doc t of None \<Rightarrow> None
      | Some pgs \<Rightarrow> if k < length pgs then Some (pgs ! k) else None)"

definition set_page :: "tab \<Rightarrow> nat \<Rightarrow> page \<Rightarrow> tab" where
  "set_page t k pg = t\<lparr>doc := map_option (\<lambda>pgs. pgs[k := pg]) (doc t)\<rparr>"

subsection \<open>render_pages\<close>

text \<open>
  The loop of \<open>render_pages\<close> over \<open>enumerate(self.doc)\<close>: \<open>i\<close> is the index, \<open>items\<close>
  is \<open>self.page_items\<close> so far, \<open>y_offset\<close> and \<open>next_x\<close> are the loop's variables
  (\<open>x_offset\<close> stays 0, \<open>padding\<close> is 20). \<open>place\<close> is the \<open>if\<close>/\<open>elif\<close> on the view
  mode in the loop's body: the position of the new item, and the next \<open>y_offset\<close> and
  \<open>next_x\<close>.
\<close>

definition place :: "view_mode \<Rightarrow> int \<Rightarrow> nat \<Rightarrow> real \<Rightarrow> real \<Rightarrow> page_item list \<Rightarrow> page_item \<Rightarrow>
    point \<times> real \<times> real" where
  "place m vw i y_offset next_x items item =
     (let w = item_w item;
          h = item_h item
      in case m of
           Single \<Rightarrow>
             (let view_w = (if vw > 0 then real_of_int vw else 800);
                  pos_x = (if w < view_w then (view_w - w) / 2 else 0)
              in ((pos_x, y_offset), y_offset + h + 20, next_x))
         | Dual \<Rightarrow>
             if i mod 2 = 0 then ((0, y_offset), y_offset, 0 + w + 20)
             else
               (let prev_h = item_h (items ! (i - 1))
                in ((next_x, y_offset), y_offset + max h prev_h + 20, next_x)))"

fun render_loop :: "view_mode \<Rightarrow> int \<Rightarrow> real \<Rightarrow> real \<Rightarrow> page list \<Rightarrow> nat \<Rightarrow> real \<Rightarrow> real \<Rightarrow>
    page_item list \<Rightarrow> string list \<Rightarrow> page_item list \<times> string list" where
  "render_loop m vw sc d [] i y_offset next_x items out = (items, out)"
| "render_loop m vw sc d (pg # pgs) i y_offset next_x items out =
     (let (it, msgs) = update_render pg (new_item i) True sc d;
          item = it\<lparr>in_scene := True\<rparr>;
          (pos, y_offset', next_x') = place m vw i y_offset next_x items item
      in render_loop m vw sc d pgs (Suc i) y_offset' next_x'
           (items @ [item\<lparr>item_pos := pos\<rparr>]) (out @ msgs))"

definition render_pages :: "view \<Rightarrow> tab \<Rightarrow> tab" where
  "render_pages v t =
     (if no_doc t then t
      else
        (let (items, out) = render_loop (view_mode t) (view_width v) (scale t) (dpr v)
                              (the (doc t)) 0 0 0 [] []
         in t\<lparr>page_items := items, scene_gen := Suc (scene_gen t), selection_overlay := [],
               printed := printed t @ out,
               emitted := emitted t @ [Zoom_changed (scale t)]\<rparr>))"

subsection \<open>Zoom\<close>

definition zoom_view :: "view \<Rightarrow> tab \<Rightarrow> real \<Rightarrow> tab" where
  "zoom_view v t change =
     (let s1 = scale t + change;
          s2 = (if s1 < 0.2 then 0.2 else s1);
          s3 = (if s2 > 5.0 then 5.0 else s2)
      in render_pages v (t\<lparr>scale := s3\<rparr>))"

definition fit_width :: "view \<Rightarrow> tab \<Rightarrow> tab" where
  "fit_width v t =
     (if no_doc t then t
      else
        (let view_w = real_of_int (view_width v - 30);
             page_w_points = rect_width (the (doc t) ! 0)
         in if page_w_points > 0 then render_pages v (t\<lparr>scale := view_w / page_w_points\<rparr>)
            else t))"

subsection \<open>Current page\<close>

text \<open>The scan of \<open>check_current_page\<close>: the first item in the scene whose rectangle has \<open>top \<le> center_y \<le> bottom\<close>.\<close>

fun page_scan :: "real \<Rightarrow> page_item list \<Rightarrow> page_item option" where
  "page_scan c [] = None"
| "page_scan c (it # its) =
     (if \<not> in_scene it then page_scan c its
      else if ry (sceneBoundingRect it) \<le> c \<and> c \<le> ry (sceneBoundingRect it) + rh (sceneBoundingRect it)
      then Some it
      else page_scan c its)"

definition check_current_page :: "view \<Rightarrow> tab \<Rightarrow> tab" where
  "check_current_page v t =
     (if page_items t = [] then t
      else
        (let center_y = snd (mapToScene v (0, view_height v div 2))
         in case page_scan center_y (page_items t) of
              None \<Rightarrow> t
            | Some it \<Rightarrow>
                (case doc t of
                   None \<Rightarrow> t
                 | Some pgs \<Rightarrow>
                     t\<lparr>emitted := emitted t @
                         [Page_changed (show_nat (page_num it + 1) @ '' / '' @ show_nat (length pgs))]\<rparr>)))"

definition load_document :: "view \<Rightarrow> tab \<Rightarrow> page list \<Rightarrow> string option \<Rightarrow> tab" where
  "load_document v t pgs path =
     check_current_page v (render_pages v (t\<lparr>doc := Some pgs, current_path := path\<rparr>))"

subsection \<open>Rubber band rectangles\<close>



fun qrect_width :: "int \<times> int \<times> int \<times> int \<Rightarrow> int" where
  "qrect_width (xa, ya, xb, yb) = xb - xa + 1"



subsection \<open>find_closest_quad_index\<close>

text \<open>
  The loop over \<open>enumerate(self.page_quads_cache)\<close>. \<open>best_dist\<close> starts at
  \<open>float('inf')\<close>, here \<open>None\<close>: every distance is below it.
\<close>

definition quad_dist :: "quad \<Rightarrow> real \<Rightarrow> real \<Rightarrow> real" where
  "quad_dist q x y =
     (let cx = (fst (ul q) + fst (lr q)) / 2;
          cy = (snd (ul q) + snd (lr q)) / 2
      in (cx - x)\<^sup>2 + (cy - y)\<^sup>2)"

fun closest_loop :: "engine \<Rightarrow> real \<Rightarrow> real \<Rightarrow> quad list \<Rightarrow> nat \<Rightarrow> real option \<Rightarrow> int \<Rightarrow> int" where
  "closest_loop e x y [] i best_dist best_idx = best_idx"
| "closest_loop e x y (q # qs) i best_dist best_idx =
     (if rect_contains e (quad_rect e q) (x, y) then int i
      else
        (let dist = quad_dist q x y
         in if (case best_dist of None \<Rightarrow> True | Some b \<Rightarrow> dist < b)
            then closest_loop e x y qs (Suc i) (Some dist) (int i)
            else closest_loop e x y qs (Suc i) best_dist best_idx))"

definition find_closest_quad_index :: "engine \<Rightarrow> tab \<Rightarrow> real \<Rightarrow> real \<Rightarrow> int" where
  "find_closest_quad_index e t x y =
     (if page_quads_cache t = [] then - 1
      else closest_loop e x y (page_quads_cache t) 0 None (- 1))"

subsection \<open>Selection: press and move\<close>

definition selection_truthy :: "selection \<Rightarrow> bool" where
  "selection_truthy s = (case s of SelQuads qs \<Rightarrow> qs \<noteq> [] | SelRect r \<Rightarrow> True)"








subsection \<open>Committing a highlight\<close>

text \<open>
  \<open>update_render\<close> on the item a reference stands for. For a deleted item nothing of the
  scene changes; what the call prints is still printed.
\<close>

definition rerender :: "view \<Rightarrow> tab \<Rightarrow> item_ref \<Rightarrow> tab" where
  "rerender v t r =
     (case page_obj t (ref_page r) of
        None \<Rightarrow> t
      | Some pg \<Rightarrow>
          (case deref t r of
             Some it \<Rightarrow>
               (let (it', msgs) = update_render pg it True (scale t) (dpr v)
                in t\<lparr>page_items := (page_items t)[ref_index r := it'], printed := printed t @ msgs\<rparr>)
           | None \<Rightarrow>
               (let (it', msgs) = update_render pg (new_item (ref_page r)) False (scale t) (dpr v)
                in t\<lparr>printed := printed t @ msgs\<rparr>)))"

text \<open>
  \<open>page.add_highlight_annot(sel)\<close>, \<open>set_colors\<close>, \<open>update\<close>, \<open>update_render\<close>: the new
  annotation goes to the end of the page's annotations. \<open>None\<close> when the engine raises.
\<close>

definition commit_highlight :: "view \<Rightarrow> tab \<Rightarrow> item_ref \<Rightarrow> selection \<Rightarrow> real \<times> real \<times> real \<Rightarrow> tab option" where
  "commit_highlight v t r sel rgb =
     (case page_obj t (ref_page r) of
        None \<Rightarrow> None
      | Some pg \<Rightarrow>
          (case add_highlight_annot pg sel of
             None \<Rightarrow> None
           | Some a \<Rightarrow>
               Some (rerender v
                 (set_page t (ref_page r) (pg\<lparr>annots := annots pg @ [a\<lparr>annot_stroke := rgb\<rparr>]\<rparr>)) r)))"

definition highlight_selection :: "view \<Rightarrow> tab \<Rightarrow> real \<times> real \<times> real \<Rightarrow> tab" where
  "highlight_selection v t color_rgb =
     (if \<not> selection_truthy (selected_quads t) then t
      else
        (case start_selection_page t of
           None \<Rightarrow> t
         | Some r \<Rightarrow>
             (case commit_highlight v t r (selected_quads t) color_rgb of
                None \<Rightarrow> t
              | Some t' \<Rightarrow> t'\<lparr>selection_overlay := [], selected_quads := SelQuads []\<rparr>)))"

text \<open>
  The rectangle of \<open>process_box_highlight\<close> and \<open>process_box_menu\<close> in page units:
  \<open>None\<close> when the item is deleted or the scale is zero (the outer \<open>except\<close>).
\<close>

definition box_pdf_rect :: "view \<Rightarrow> tab \<Rightarrow> item_ref \<Rightarrow> int \<times> int \<times> int \<times> int \<Rightarrow> frect option" where
  "box_pdf_rect v t r rect_screen =
     (case deref t r of
        None \<Rightarrow> None
      | Some it \<Rightarrow>
          (let rect_scene = mapRectToScene v rect_screen;
               intersection = rectf_intersected v rect_scene (sceneBoundingRect it);
               local = intersection\<lparr>rx := rx intersection - fst (item_pos it),
                                     ry := ry intersection - snd (item_pos it)\<rparr>
           in if scale t = 0 then None
              else Some \<lparr>x0 = rx local / scale t, y0 = ry local / scale t,
                         x1 = (rx local + rw local) / scale t,
                         y1 = (ry local + rh local) / scale t\<rparr>))"

definition process_box_highlight :: "view \<Rightarrow> tab \<Rightarrow> int \<times> int \<times> int \<times> int \<Rightarrow> tab" where
  "process_box_highlight v t rect_screen =
     (case start_selection_page t of
        None \<Rightarrow> t
      | Some r \<Rightarrow>
          (case box_pdf_rect v t r rect_screen of
             None \<Rightarrow> t
           | Some pdf_rect \<Rightarrow>
               (let quads = Option.bind (page_obj t (ref_page r)) (\<lambda>pg. get_quads_clip pg pdf_rect);
                    sel = (case quads of
                             None \<Rightarrow> SelRect pdf_rect
                           | Some qs \<Rightarrow> if qs \<noteq> [] then SelQuads qs else SelRect pdf_rect)
                in case commit_highlight v t r sel (highlight_color t) of
                     None \<Rightarrow> t
                   | Some t' \<Rightarrow> t')))"

subsection \<open>Copy and the context menu\<close>

text \<open>
  Python's \<open>str.strip()\<close>. Text is a string of characters with code points below 256;
  among these \<open>str.isspace\<close> holds of 9 to 13, 28 to 32, 133 and 160.
\<close>

definition py_isspace :: "char \<Rightarrow> bool" where
  "py_isspace c = (of_char c \<in> {9, 10, 11, 12, 13, 28, 29, 30, 31, 32, 133, 160 :: nat})"

definition strip :: "string \<Rightarrow> string" where
  "strip s = rev (dropWhile py_isspace (rev (dropWhile py_isspace s)))"

text \<open>
  The loop \<open>for q in self.selected_quads\<close> of \<open>copy_selection\<close>: the text of each quad is
  appended to \<open>full_text\<close>; an extraction that raises is passed over.
\<close>

fun copy_loop :: "engine \<Rightarrow> page option \<Rightarrow> string \<Rightarrow> quad list \<Rightarrow> string" where
  "copy_loop e pgo full_text [] = full_text"
| "copy_loop e pgo full_text (q # qs) =
     copy_loop e pgo
       (case Option.bind pgo (\<lambda>pg. get_text_clip pg (quad_rect e q)) of
          None \<Rightarrow> full_text
        | Some s \<Rightarrow> full_text @ s) qs"

definition copy_selection :: "engine \<Rightarrow> tab \<Rightarrow> tab" where
  "copy_selection e t =
     (if \<not> selection_truthy (selected_quads t) then t
      else
        (case start_selection_page t of
           None \<Rightarrow> t
         | Some r \<Rightarrow>
             (case selected_quads t of
                SelRect rc \<Rightarrow>
                  (case Option.bind (page_obj t (ref_page r)) (\<lambda>pg. get_text_clip pg rc) of
                     None \<Rightarrow> t
                   | Some full_text \<Rightarrow> t\<lparr>clipboard := strip full_text, selection_overlay := []\<rparr>)
              | SelQuads qs \<Rightarrow>
                  t\<lparr>clipboard := strip (copy_loop e (page_obj t (ref_page r)) [] qs),
                    selection_overlay := []\<rparr>)))"

text \<open>What the user picks in the context menu: nothing, \<open>Copy Text\<close>, or one of the four colours.\<close>

datatype menu_choice = Dismiss | Copy_Text | Highlight_Colour nat

definition menu_colors :: "(real \<times> real \<times> real) list" where
  "menu_colors = [(1, 1, 0), (0, 1, 0), (1, 0, 0), (0, 0, 1)]"

definition show_context_menu :: "engine \<Rightarrow> view \<Rightarrow> tab \<Rightarrow> menu_choice \<Rightarrow> tab" where
  "show_context_menu e v t c =
     (case c of
        Dismiss \<Rightarrow> t
      | Copy_Text \<Rightarrow> copy_selection e t
      | Highlight_Colour i \<Rightarrow>
          if i < length menu_colors then highlight_selection v t (menu_colors ! i) else t)"

definition process_box_menu :: "engine \<Rightarrow> view \<Rightarrow> tab \<Rightarrow> int \<times> int \<times> int \<times> int \<Rightarrow> menu_choice \<Rightarrow> tab" where
  "process_box_menu e v t rect_screen c =
     (case start_selection_page t of
        None \<Rightarrow> t
      | Some r \<Rightarrow>
          (case box_pdf_rect v t r rect_screen of
             None \<Rightarrow> t
           | Some pdf_rect \<Rightarrow>
               (let real = Option.bind (page_obj t (ref_page r)) (\<lambda>pg. get_quads_clip pg pdf_rect);
                    sel = (case real of
                             None \<Rightarrow> SelRect pdf_rect
                           | Some qs \<Rightarrow> if qs \<noteq> [] then SelQuads qs else SelRect pdf_rect)
                in show_context_menu e v (t\<lparr>selected_quads := sel\<rparr>) c)))"

subsection \<open>Release\<close>

definition handle_selection_release :: "engine \<Rightarrow> view \<Rightarrow> tab \<Rightarrow> menu_choice \<Rightarrow> tab" where
  "handle_selection_release e v t c =
     (let t1 =
        (if tool_mode t = Highlight then
           (if use_linear_selection t \<and> selection_truthy (selected_quads t)
            then highlight_selection v t (highlight_color t)
            else (let rect = rubberband t
                  in if qrect_width rect > 5 then process_box_highlight v t rect else t))
         else
           (if use_linear_selection t \<and> selection_truthy (selected_quads t)
            then show_context_menu e v t c
            else (let rect = rubberband t
                  in if qrect_width rect > 5 then process_box_menu e v t rect c else t)))
      in t1\<lparr>rubberband_shown := False, origin_point := (0, 0), start_selection_page := None\<rparr>)"

subsection \<open>Eraser\<close>

text \<open>
  The \<open>while annot\<close> loop of \<open>process_eraser\<close>: the page's annotations without the first
  one whose rectangle contains the point and whose type is 8 (highlight); \<open>None\<close> when
  the loop ends without a match.
\<close>

fun erase_scan :: "engine \<Rightarrow> point \<Rightarrow> annot list \<Rightarrow> annot list option" where
  "erase_scan e pt [] = None"
| "erase_scan e pt (a # as) =
     (if rect_contains e (annot_rect a) pt \<and> annot_type a = 8 then Some as
      else map_option ((#) a) (erase_scan e pt as))"

text \<open>
  The loop over \<open>self.page_items\<close>. Inside the \<open>try\<close>, a division by a scale of zero is
  swallowed and the loop goes on with the next item; a page without a match ends the loop
  (\<open>break\<close>); a match deletes the annotation, renders the item again and returns.
\<close>

fun eraser_loop :: "engine \<Rightarrow> view \<Rightarrow> tab \<Rightarrow> point \<Rightarrow> nat \<Rightarrow> page_item list \<Rightarrow> tab" where
  "eraser_loop e v t scene_pos k [] = t"
| "eraser_loop e v t scene_pos k (it # its) =
     (if \<not> in_scene it then eraser_loop e v t scene_pos (Suc k) its
      else if rectf_contains v (sceneBoundingRect it) scene_pos then
        (if scale t = 0 then eraser_loop e v t scene_pos (Suc k) its
         else
           (let local_pos = mapFromScene it scene_pos;
                point = (fst local_pos / scale t, snd local_pos / scale t)
            in case page_obj t (page_num it) of
                 None \<Rightarrow> eraser_loop e v t scene_pos (Suc k) its
               | Some pg \<Rightarrow>
                   (case erase_scan e point (annots pg) of
                      None \<Rightarrow> t
                    | Some rest \<Rightarrow>
                        (let pg' = pg\<lparr>annots := rest\<rparr>;
                             (it', msgs) = update_render pg' it True (scale t) (dpr v)
                         in (set_page t (page_num it) pg')
                              \<lparr>page_items := (page_items t)[k := it'],
                               printed := printed t @ msgs\<rparr>))))
      else eraser_loop e v t scene_pos (Suc k) its)"

definition process_eraser :: "engine \<Rightarrow> view \<Rightarrow> tab \<Rightarrow> int \<times> int \<Rightarrow> tab" where
  "process_eraser e v t screen_pos = eraser_loop e v t (mapToScene v screen_pos) 0 (page_items t)"

subsection \<open>Tools and events\<close>

definition set_tool :: "tab \<Rightarrow> tool_mode \<Rightarrow> tab" where
  "set_tool t m =
     (let t1 = t\<lparr>tool_mode := m\<rparr>
      in case m of
           Browse \<Rightarrow> t1\<lparr>selection_overlay := [], selected_quads := SelQuads [], rubberband_shown := False\<rparr>
         | Erase \<Rightarrow> t1\<lparr>rubberband_shown := False\<rparr>
         | _ \<Rightarrow> t1)"





subsection \<open>ProPDFViewer: saving\<close>

text \<open>
  The file system and the dialogs: \<open>os.path.isfile\<close>, \<open>os.path.basename\<close>, the path the
  save dialog returns (empty when cancelled), and the engine's \<open>saveIncr\<close> and \<open>save\<close>,
  which give \<open>Some\<close> message when they raise.
\<close>

record files =
  isfile :: "string \<Rightarrow> bool"
  basename :: "string \<Rightarrow> string"
  getSaveFileName :: string
  saveIncr :: "page list \<Rightarrow> string option"
  save :: "page list \<Rightarrow> string \<Rightarrow> string option"

datatype ui_effect =
    Called_saveIncr
  | Called_save string
  | Asked_save_path
  | Information string string
  | Critical string string
  | Set_tab_text string

definition no_attribute :: "string \<Rightarrow> string" where
  "no_attribute a = [CHR 0x27] @ ''NoneType'' @ [CHR 0x27] @ '' object has no attribute '' @ [CHR 0x27] @ a @ [CHR 0x27]"

definition path_falsy :: "string option \<Rightarrow> bool" where
  "path_falsy p = (case p of None \<Rightarrow> True | Some s \<Rightarrow> s = [])"

text \<open>\<open>save_as_new\<close> and \<open>save_overwrite\<close> on the current tab (\<open>None\<close>: no tab is open).\<close>

definition save_as_new :: "files \<Rightarrow> tab option \<Rightarrow> tab option \<times> ui_effect list" where
  "save_as_new fs cur =
     (case cur of
        None \<Rightarrow> (None, [])
      | Some t \<Rightarrow>
          (let path = getSaveFileName fs
           in if path \<noteq> [] then
                (case doc t of
                   None \<Rightarrow> (Some t, [Asked_save_path, Critical ''Error'' (no_attribute ''save'')])
                 | Some pgs \<Rightarrow>
                     (case save fs pgs path of
                        Some err \<Rightarrow> (Some t, [Asked_save_path, Called_save path, Critical ''Error'' err])
                      | None \<Rightarrow>
                          if path_falsy (current_path t)
                          then (Some (t\<lparr>current_path := Some path\<rparr>),
                                [Asked_save_path, Called_save path, Information ''Saved'' ''Copy saved.'',
                                 Set_tab_text (basename fs path)])
                          else (Some t,
                                [Asked_save_path, Called_save path, Information ''Saved'' ''Copy saved.''])))
              else (Some t, [Asked_save_path])))"

definition save_overwrite :: "files \<Rightarrow> tab option \<Rightarrow> tab option \<times> ui_effect list" where
  "save_overwrite fs cur =
     (case cur of
        None \<Rightarrow> (None, [])
      | Some t \<Rightarrow>
          if path_falsy (current_path t) \<or> \<not> isfile fs (the (current_path t))
          then save_as_new fs (Some t)
          else
            (case doc t of
               None \<Rightarrow> (Some t, [Critical ''Error'' (no_attribute ''saveIncr'')])
             | Some pgs \<Rightarrow>
                 (case saveIncr fs pgs of
                    None \<Rightarrow> (Some t, [Called_saveIncr, Information ''Saved'' ''Saved to original file.''])
                  | Some err \<Rightarrow> (Some t, [Called_saveIncr, Critical ''Error'' err]))))"

subsection \<open>A small document, for the examples\<close>

text \<open>
  An engine whose rectangles contain their left and top edges, a viewport of 800 by 600
  scrolled to the origin, and the tab state after \<open>__init__\<close> with the rubber band at
  the geometry of a fresh widget.
\<close>

definition ex_engine :: engine where
  "ex_engine =
     \<lparr>rect_contains = (\<lambda>r p. x0 r \<le> fst p \<and> fst p < x1 r \<and> y0 r \<le> snd p \<and> snd p < y1 r),
      quad_rect = (\<lambda>q. \<lparr>x0 = fst (ul q), y0 = snd (ul q), x1 = fst (lr q), y1 = snd (lr q)\<rparr>)\<rparr>"

definition ex_view :: view where
  "ex_view =
     \<lparr>view_width = 800, view_height = 600, dpr = 1,
      mapToScene = (\<lambda>p. (real_of_int (fst p), real_of_int (snd p))),
      mapRectToScene = (\<lambda>(xa, ya, xb, yb).
         \<lparr>rx = real_of_int xa, ry = real_of_int ya,
          rw = real_of_int (xb - xa + 1), rh = real_of_int (yb - ya + 1)\<rparr>),
      rectf_contains = (\<lambda>r p. rw r \<noteq> 0 \<and> rh r \<noteq> 0 \<and> rx r \<le> fst p \<and> fst p \<le> rx r + rw r
                                \<and> ry r \<le> snd p \<and> snd p \<le> ry r + rh r),
      rectf_intersected = (\<lambda>a b.
         \<lparr>rx = max (rx a) (rx b), ry = max (ry a) (ry b),
          rw = min (rx a + rw a) (rx b + rw b) - max (rx a) (rx b),
          rh = min (ry a + rh a) (ry b + rh b) - max (ry a) (ry b)\<rparr>)\<rparr>"

definition ex_tab :: tab where
  "ex_tab = init_tab (0, 0, 99, 29)"

definition ex_quad :: "real \<Rightarrow> real \<Rightarrow> real \<Rightarrow> real \<Rightarrow> quad" where
  "ex_quad xa ya xb yb = \<lparr>ul = (xa, ya), ur = (xb, ya), ll = (xa, yb), lr = (xb, yb)\<rparr>"

definition ex_pixmap :: pixmap where
  "ex_pixmap = \<lparr>samples = [255, 255, 255], alpha = False, pix_width = 100, pix_height = 200, stride = 300\<rparr>"

text \<open>A page of 100 by 200 units holding two words, and a scanned page without text.\<close>

definition ex_page :: page where
  "ex_page =
     \<lparr>rect_width = 100, annots = [],
      get_pixmap = (\<lambda>as z. Inr ex_pixmap),
      get_quads = Some [ex_quad 10 10 30 20, ex_quad 40 10 60 20],
      get_quads_clip = (\<lambda>r. Some []),
      get_text_clip = (\<lambda>r. if x0 r < 35 then Some '' Hello '' else Some ''world ''),
      add_highlight_annot = (\<lambda>sel. Some \<lparr>annot_type = 8,
         annot_rect = (case sel of SelRect r \<Rightarrow> r
                       | SelQuads qs \<Rightarrow> \<lparr>x0 = 10, y0 = 10, x1 = 60, y1 = 20\<rparr>),
         annot_stroke = (0, 0, 0)\<rparr>)\<rparr>"


text \<open>A file system where only \<open>a.pdf\<close> exists, and a save dialog answering \<open>b.pdf\<close>.\<close>

definition ex_files :: files where
  "ex_files =
     \<lparr>isfile = (\<lambda>p. p = ''a.pdf''), basename = (\<lambda>p. p), getSaveFileName = ''b.pdf'',
      saveIncr = (\<lambda>pgs. None), save = (\<lambda>pgs p. None)\<rparr>"

definition ex_web_tab :: tab where
  "ex_web_tab = ex_tab\<lparr>doc := Some [ex_page], current_path := Some ''Web: x...''\<rparr>"

definition ex_file_tab :: tab where
  "ex_file_tab = ex_tab\<lparr>doc := Some [ex_page], current_path := Some ''a.pdf''\<rparr>"

definition ex_corrupt :: page where
  "ex_corrupt = ex_page\<lparr>get_pixmap := (\<lambda>as z. Inl ''corrupt page'')\<rparr>"

definition ex_blank :: page where
  "ex_blank = ex_page\<lparr>get_pixmap := (\<lambda>as z. Inr (ex_pixmap\<lparr>samples := []\<rparr>))\<rparr>"

definition ex_render_tab :: tab where
  "ex_render_tab = ex_tab\<lparr>doc := Some [ex_page, ex_corrupt, ex_blank, ex_page]\<rparr>"

definition ex_quads_tab :: tab where
  "ex_quads_tab = ex_tab\<lparr>page_quads_cache := [ex_quad 10 10 30 20, ex_quad 40 10 60 20]\<rparr>"

subsection \<open>Rows of the Dual layout\<close>

text \<open>The y-offset of the item at index \<open>k\<close>.\<close>

definition ypos :: "page_item list \<Rightarrow> nat \<Rightarrow> real" where
  "ypos items k = snd (item_pos (items ! k))"

text \<open>
  What holds of \<open>page_items\<close>, \<open>y_offset\<close> and \<open>next_x\<close> before every iteration of the
  loop of \<open>render_pages\<close> in Dual mode.
\<close>

definition dual_inv :: "page_item list \<Rightarrow> real \<Rightarrow> real \<Rightarrow> bool" where
  "dual_inv items y nx \<longleftrightarrow>
     (\<forall>k<length items. even k \<longrightarrow> fst (item_pos (items ! k)) = 0)
     \<and> (\<forall>k<length items. odd k \<longrightarrow>
           item_pos (items ! k) = (item_w (items ! (k - 1)) + 20, ypos items (k - 1)))
     \<and> (\<forall>k. even k \<and> k + 2 < length items \<longrightarrow>
           ypos items (k + 2) = ypos items k + max (item_h (items ! (k + 1))) (item_h (items ! k)) + 20)
     \<and> (0 < length items \<longrightarrow> ypos items 0 = 0)
     \<and> (length items = 0 \<longrightarrow> y = 0)
     \<and> (odd (length items) \<longrightarrow>
           y = ypos items (length items - 1) \<and> nx = item_w (items ! (length items - 1)) + 20)
     \<and> (even (length items) \<and> 0 < length items \<longrightarrow>
           y = ypos items (length items - 2)
               + max (item_h (items ! (length items - 1))) (item_h (items ! (length items - 2))) + 20)"

text \<open>Documents of three and of two pages in Dual mode, and what their pages render to.\<close>

definition ex_dual3 :: tab where
  "ex_dual3 = ex_tab\<lparr>doc := Some [ex_page, ex_page, ex_page], view_mode := Dual\<rparr>"

definition ex_dual2 :: tab where
  "ex_dual2 = ex_tab\<lparr>doc := Some [ex_page, ex_page], view_mode := Dual\<rparr>"

definition ex_item :: "nat \<Rightarrow> real \<Rightarrow> real \<Rightarrow> page_item" where
  "ex_item n x y =
     \<lparr>page_num = n,
      item_pixmap = Some \<lparr>img_data = [255, 255, 255], img_width = 100, img_height = 200,
                           img_stride = 300, img_format = Format_RGB888, img_dpr = 1\<rparr>,
      item_pos = (x, y), in_scene = True\<rparr>"

subsection \<open>Pages around the centre of the viewport\<close>

text \<open>An item that is in the scene and whose rectangle reaches from at or above \<open>c\<close> to at or below \<open>c\<close>.\<close>

definition straddles :: "real \<Rightarrow> page_item \<Rightarrow> bool" where
  "straddles c it \<longleftrightarrow>
     in_scene it \<and> snd (item_pos it) \<le> c \<and> c \<le> snd (item_pos it) + item_h it"

definition center_y :: "view \<Rightarrow> real" where
  "center_y v = snd (mapToScene v (0, view_height v div 2))"

text \<open>A document of two pages after \<open>load_document\<close>, and a viewport 420 units high.\<close>

definition ex_loaded :: tab where
  "ex_loaded = load_document ex_view ex_tab [ex_page, ex_page] None"

definition ex_low_view :: view where
  "ex_low_view = ex_view\<lparr>view_height := 420\<rparr>"

subsection \<open>What the eraser looks for\<close>

text \<open>An annotation the eraser removes at a point: its rectangle contains the point and it is a highlight.\<close>

definition erasable :: "engine \<Rightarrow> point \<Rightarrow> annot \<Rightarrow> bool" where
  "erasable e pt a \<longleftrightarrow> rect_contains e (annot_rect a) pt \<and> annot_type a = 8"

text \<open>The item at index \<open>k\<close> is the first item of the scene whose rectangle contains the scene point.\<close>

definition under_pointer :: "view \<Rightarrow> page_item list \<Rightarrow> point \<Rightarrow> nat \<Rightarrow> bool" where
  "under_pointer v items sp k \<longleftrightarrow>
     k < length items
     \<and> in_scene (items ! k) \<and> rectf_contains v (sceneBoundingRect (items ! k)) sp
     \<and> (\<forall>j<k. \<not> (in_scene (items ! j) \<and> rectf_contains v (sceneBoundingRect (items ! j)) sp))"

text \<open>The scene point in the units of the page of an item.\<close>

definition local_point :: "tab \<Rightarrow> page_item \<Rightarrow> point \<Rightarrow> point" where
  "local_point t it sp = (fst (mapFromScene it sp) / scale t, snd (mapFromScene it sp) / scale t)"

text \<open>
  A page with a note and two highlights, one with the note and a single highlight, and
  tabs in Erase mode showing them.
\<close>

definition ex_note :: annot where
  "ex_note = \<lparr>annot_type = 0, annot_rect = \<lparr>x0 = 0, y0 = 0, x1 = 100, y1 = 100\<rparr>, annot_stroke = (0, 0, 0)\<rparr>"

definition ex_hl :: annot where
  "ex_hl = \<lparr>annot_type = 8, annot_rect = \<lparr>x0 = 40, y0 = 40, x1 = 60, y1 = 60\<rparr>, annot_stroke = (1, 1, 0)\<rparr>"

definition ex_hl2 :: annot where
  "ex_hl2 = \<lparr>annot_type = 8, annot_rect = \<lparr>x0 = 0, y0 = 0, x1 = 100, y1 = 100\<rparr>, annot_stroke = (0, 1, 0)\<rparr>"

definition ex_marked :: "annot list \<Rightarrow> page" where
  "ex_marked as = ex_page\<lparr>annots := as\<rparr>"

definition ex_erase_tab :: "annot list \<Rightarrow> tab" where
  "ex_erase_tab as = render_pages ex_view (ex_tab\<lparr>doc := Some [ex_marked as], tool_mode := Erase\<rparr>)"

subsection \<open>What copy puts on the clipboard\<close>





subsection \<open>Gestures\<close>






section \<open>Zoom keeps the scale in range\<close>

lemma scale_render_pages: "scale (render_pages v t) = scale t"
  by (simp add: render_pages_def Let_def split: prod.splits)

lemma scale_zoom_view:
  "scale (zoom_view v t c) = (if scale t + c < 0.2 then 0.2 else if scale t + c > 5 then 5 else scale t + c)"
  by (simp add: zoom_view_def Let_def scale_render_pages)

lemma zoom_view_range: "0.2 \<le> scale (zoom_view v t c) \<and> scale (zoom_view v t c) \<le> 5"
  by (simp add: scale_zoom_view)

lemma zoom_steps_range:
  "0.2 \<le> scale t \<and> scale t \<le> 5 \<Longrightarrow>
   0.2 \<le> scale (foldl (zoom_view v) t cs) \<and> scale (foldl (zoom_view v) t cs) \<le> 5"
proof (induction cs arbitrary: t)
  case Nil
  then show ?case by simp
next
  case (Cons c cs)
  have "0.2 \<le> scale (zoom_view v t c) \<and> scale (zoom_view v t c) \<le> 5"
    by (rule zoom_view_range)
  from Cons.IH [OF this] show ?case by simp
qed

lemma zoom_in_steps:
  "scale t = 0.2 \<Longrightarrow> n \<le> 24 \<Longrightarrow>
   scale (foldl (zoom_view v) t (replicate n 0.2)) = 0.2 + real n * 0.2"
proof (induction n)
  case 0
  then show ?case by simp
next
  case (Suc n)
  define t' where "t' = foldl (zoom_view v) t (replicate n 0.2)"
  have st: "scale t' = 0.2 + real n * 0.2"
    using Suc by (simp add: t'_def)
  have bound: "real n \<le> 23"
    using Suc.prems(2) by simp
  have "replicate (Suc n) (0.2::real) = replicate n 0.2 @ [0.2]"
    by (simp add: replicate_append_same)
  then have "scale (foldl (zoom_view v) t (replicate (Suc n) 0.2)) = scale (zoom_view v t' 0.2)"
    by (simp add: t'_def)
  also have "\<dots> = 0.2 + real (Suc n) * 0.2"
    using bound by (simp add: scale_zoom_view st add_divide_distrib)
  finally show ?case .
qed

text \<open>
  C4. From a scale in [0.2, 5.0], after every step of any finite sequence of zoom-in (+0.2)
  and zoom-out (-0.2) steps the scale lies in [0.2, 5.0]; and from 0.2, 24 zoom-in steps
  give exactly 5.0, not 5.8.
\<close>

theorem zoom_steps_clamped:
  "0.2 \<le> scale t \<and> scale t \<le> 5 \<Longrightarrow> set cs \<subseteq> {0.2, - 0.2} \<Longrightarrow>
   (\<forall>k \<le> length cs. 0.2 \<le> scale (foldl (zoom_view v) t (take k cs))
        \<and> scale (foldl (zoom_view v) t (take k cs)) \<le> 5)
   \<and> (scale t = 0.2 \<longrightarrow> scale (foldl (zoom_view v) t (replicate 24 0.2)) = 5
        \<and> scale (foldl (zoom_view v) t (replicate 24 0.2)) \<noteq> 5.8)"
proof (intro conjI allI impI)
  fix k
  assume "0.2 \<le> scale t \<and> scale t \<le> 5"
  then show "0.2 \<le> scale (foldl (zoom_view v) t (take k cs))"
    and "scale (foldl (zoom_view v) t (take k cs)) \<le> 5"
    using zoom_steps_range [of t v "take k cs"] by simp_all
next
  assume "scale t = 0.2"
  then have e: "scale (foldl (zoom_view v) t (replicate 24 0.2)) = 0.2 + real 24 * 0.2"
    by (rule zoom_in_steps) simp
  from e show "scale (foldl (zoom_view v) t (replicate 24 0.2)) = 5" by simp
  from e show "scale (foldl (zoom_view v) t (replicate 24 0.2)) \<noteq> 5.8" by simp
qed

theorem zoom_steps_clamped_witness:
  "0.2 \<le> scale (ex_tab\<lparr>scale := 0.2\<rparr>) \<and> scale (ex_tab\<lparr>scale := 0.2\<rparr>) \<le> 5
   \<and> set [0.2, - 0.2] \<subseteq> {0.2, - 0.2 :: real}
   \<and> 0.2 \<le> scale (foldl (zoom_view ex_view) (ex_tab\<lparr>scale := 0.2\<rparr>) (take 2 [0.2, - 0.2]))
   \<and> scale (foldl (zoom_view ex_view) (ex_tab\<lparr>scale := 0.2\<rparr>) (take 2 [0.2, - 0.2])) \<le> 5
   \<and> scale (ex_tab\<lparr>scale := 0.2\<rparr>) = 0.2
   \<and> scale (foldl (zoom_view ex_view) (ex_tab\<lparr>scale := 0.2\<rparr>) (replicate 24 0.2)) = 5"
proof -
  have h1: "0.2 \<le> scale (ex_tab\<lparr>scale := 0.2\<rparr>) \<and> scale (ex_tab\<lparr>scale := 0.2\<rparr>) \<le> 5"
    by simp
  have h2: "set [0.2, - 0.2] \<subseteq> {0.2, - 0.2 :: real}"
    by simp
  have h3: "scale (ex_tab\<lparr>scale := 0.2\<rparr>) = 0.2"
    by simp
  note th = zoom_steps_clamped [OF h1 h2, of ex_view]
  from th have a: "\<forall>k \<le> length [0.2, - 0.2 :: real].
      0.2 \<le> scale (foldl (zoom_view ex_view) (ex_tab\<lparr>scale := 0.2\<rparr>) (take k [0.2, - 0.2]))
      \<and> scale (foldl (zoom_view ex_view) (ex_tab\<lparr>scale := 0.2\<rparr>) (take k [0.2, - 0.2])) \<le> 5"
    by (rule conjunct1)
  have a2: "0.2 \<le> scale (foldl (zoom_view ex_view) (ex_tab\<lparr>scale := 0.2\<rparr>) (take 2 [0.2, - 0.2]))
      \<and> scale (foldl (zoom_view ex_view) (ex_tab\<lparr>scale := 0.2\<rparr>) (take 2 [0.2, - 0.2])) \<le> 5"
    using a [rule_format, of 2] by simp
  from th h3 have b: "scale (foldl (zoom_view ex_view) (ex_tab\<lparr>scale := 0.2\<rparr>) (replicate 24 0.2)) = 5"
    by blast
  from h1 h2 h3 a2 b show ?thesis
    by blast
qed

section \<open>Fit width\<close>

lemma scale_fit_width:
  "scale (fit_width v t) =
     (if no_doc t \<or> rect_width (the (doc t) ! 0) \<le> 0 then scale t
      else real_of_int (view_width v - 30) / rect_width (the (doc t) ! 0))"
  by (simp add: fit_width_def Let_def scale_render_pages)

text \<open>
  C3. The scale is meant to stay in [0.2, 5.0], and \<open>zoom_view\<close> clamps it; \<open>fit_width\<close>
  assigns the quotient without clamping. A page 100 units wide in a view 830 wide gets the
  scale 8; in a view 30 wide it gets the scale 0.
\<close>

theorem fit_width_leaves_range:
  "scale (fit_width (ex_view\<lparr>view_width := 830\<rparr>) (ex_tab\<lparr>doc := Some [ex_page]\<rparr>)) = 8
   \<and> scale (fit_width (ex_view\<lparr>view_width := 30\<rparr>) (ex_tab\<lparr>doc := Some [ex_page]\<rparr>)) = 0"
  by (simp add: scale_fit_width no_doc_def ex_page_def)

section \<open>Save\<close>

lemma save_as_new_no_incr: "Called_saveIncr \<notin> set (snd (save_as_new fs cur))"
  by (auto simp: save_as_new_def Let_def split: option.splits)

text \<open>
  C10. A Save on a tab whose \<open>current_path\<close> is unset or names no existing file does
  what Save-Copy does and never calls the incremental save; the incremental save is
  called only when \<open>current_path\<close> names an existing file.
\<close>

theorem save_overwrite_guard:
  "(path_falsy (current_path t) \<or> \<not> isfile fs (the (current_path t)) \<longrightarrow>
      save_overwrite fs (Some t) = save_as_new fs (Some t)
      \<and> Called_saveIncr \<notin> set (snd (save_overwrite fs (Some t))))
   \<and> (Called_saveIncr \<in> set (snd (save_overwrite fs (Some t))) \<longrightarrow>
      (\<exists>p. current_path t = Some p \<and> p \<noteq> [] \<and> isfile fs p))"
proof (intro conjI impI)
  assume a: "path_falsy (current_path t) \<or> \<not> isfile fs (the (current_path t))"
  then show eq: "save_overwrite fs (Some t) = save_as_new fs (Some t)"
    by (simp add: save_overwrite_def)
  show "Called_saveIncr \<notin> set (snd (save_overwrite fs (Some t)))"
    by (simp only: eq save_as_new_no_incr not_False_eq_True)
next
  assume b: "Called_saveIncr \<in> set (snd (save_overwrite fs (Some t)))"
  have "\<not> (path_falsy (current_path t) \<or> \<not> isfile fs (the (current_path t)))"
  proof
    assume "path_falsy (current_path t) \<or> \<not> isfile fs (the (current_path t))"
    then have "save_overwrite fs (Some t) = save_as_new fs (Some t)"
      by (simp add: save_overwrite_def)
    with b save_as_new_no_incr [of fs "Some t"] show False by simp
  qed
  then show "\<exists>p. current_path t = Some p \<and> p \<noteq> [] \<and> isfile fs p"
    by (cases "current_path t") (auto simp: path_falsy_def)
qed

theorem save_overwrite_guard_witness:
  "\<not> isfile ex_files (the (current_path ex_web_tab))
   \<and> snd (save_overwrite ex_files (Some ex_web_tab))
       = [Asked_save_path, Called_save ''b.pdf'', Information ''Saved'' ''Copy saved.'']
   \<and> Called_saveIncr \<in> set (snd (save_overwrite ex_files (Some ex_file_tab)))
   \<and> current_path ex_file_tab = Some ''a.pdf'' \<and> isfile ex_files ''a.pdf''"
proof -
  have h1: "\<not> isfile ex_files (the (current_path ex_web_tab))"
    by (simp add: ex_files_def ex_web_tab_def)
  from save_overwrite_guard [of ex_web_tab ex_files] h1
  have "save_overwrite ex_files (Some ex_web_tab) = save_as_new ex_files (Some ex_web_tab)"
    by blast
  then have r1: "snd (save_overwrite ex_files (Some ex_web_tab))
       = [Asked_save_path, Called_save ''b.pdf'', Information ''Saved'' ''Copy saved.'']"
    by (simp add: save_as_new_def ex_files_def ex_web_tab_def path_falsy_def)
  have h2: "Called_saveIncr \<in> set (snd (save_overwrite ex_files (Some ex_file_tab)))"
    by (simp add: save_overwrite_def ex_files_def ex_file_tab_def path_falsy_def)
  from save_overwrite_guard [of ex_file_tab ex_files] h2
  have "\<exists>p. current_path ex_file_tab = Some p \<and> p \<noteq> [] \<and> isfile ex_files p"
    by blast
  then have r2: "current_path ex_file_tab = Some ''a.pdf'' \<and> isfile ex_files ''a.pdf''"
    by (simp add: ex_file_tab_def)
  from h1 r1 h2 r2 show ?thesis
    by blast
qed

section \<open>Rendering\<close>

lemma update_render_page_num [simp]: "page_num (fst (update_render pg it live sc d)) = page_num it"
  by (simp add: update_render_def split: sum.splits)

lemma update_render_pos [simp]: "item_pos (fst (update_render pg it live sc d)) = item_pos it"
  by (simp add: update_render_def split: sum.splits)

lemma render_loop_length:
  "length (fst (render_loop m vw sc d pgs i y nx items out)) = length items + length pgs"
  by (induction pgs arbitrary: i y nx items out)
     (simp_all add: Let_def split: prod.splits)

lemma render_loop_prefix:
  "k < length items \<Longrightarrow> fst (render_loop m vw sc d pgs i y nx items out) ! k = items ! k"
  by (induction pgs arbitrary: i y nx items out)
     (simp_all add: Let_def nth_append split: prod.splits)

lemma render_loop_pixmap:
  "k < length pgs \<Longrightarrow>
   item_pixmap (fst (render_loop m vw sc d pgs i y nx items out) ! (length items + k))
     = item_pixmap (fst (update_render (pgs ! k) (new_item (i + k)) True sc d))"
proof (induction pgs arbitrary: k i y nx items out)
  case Nil
  then show ?case by simp
next
  case (Cons pg pgs)
  show ?case
  proof (cases k)
    case 0
    then show ?thesis
      by (simp add: Let_def render_loop_prefix split: prod.splits)
  next
    case (Suc k')
    with Cons.prems have k': "k' < length pgs" by simp
    have ih: "item_pixmap (fst (render_loop m vw sc d pgs (Suc i) y' nx' its out') ! Suc (length items + k'))
        = item_pixmap (fst (update_render (pgs ! k') (new_item (Suc (i + k'))) True sc d))"
      if "length its = Suc (length items)" for y' nx' its out'
      using Cons.IH [OF k', where i = "Suc i" and items = its and y = y' and nx = nx' and out = out'] that
      by simp
    show ?thesis
      using Suc by (simp add: Let_def ih split: prod.splits)
  qed
qed

lemma render_loop_out:
  "snd (render_loop m vw sc d pgs i y nx items out)
     = out @ concat (map (\<lambda>k. snd (update_render (pgs ! k) (new_item (i + k)) True sc d)) [0..<length pgs])"
proof (induction pgs arbitrary: i y nx items out)
  case Nil
  then show ?case by simp
next
  case (Cons pg pgs)
  have up: "[0..<length (pg # pgs)] = 0 # map Suc [0..<length pgs]"
    by (simp add: upt_conv_Cons map_Suc_upt del: upt_Suc)
  show ?case
    unfolding up
    by (simp add: Let_def Cons.IH comp_def split: prod.splits)
qed

text \<open>
  C9. When the engine returns no pixel data, \<open>update_render\<close> leaves the item as it
  was and prints nothing; when the engine raises, the item is left as it was and one line
  is printed for that page. \<open>render_pages\<close> renders every page: the bitmap of page
  \<open>k\<close> is what \<open>update_render\<close> gives for page \<open>k\<close> alone, whatever happens on the other
  pages, and the lines printed are those of the single pages, in order.
\<close>

theorem render_failures_local:
  "(get_pixmap pg (annots pg) (sc * d) = Inr pix \<and> samples pix = [] \<longrightarrow>
      update_render pg it live sc d = (it, []))
   \<and> (get_pixmap pg (annots pg) (sc * d) = Inl msg \<longrightarrow>
      update_render pg it live sc d = (it, [render_error it msg]))
   \<and> (doc t = Some pgs \<and> pgs \<noteq> [] \<longrightarrow>
      length (page_items (render_pages v t)) = length pgs
      \<and> (\<forall>k < length pgs.
            item_pixmap (page_items (render_pages v t) ! k)
              = item_pixmap (fst (update_render (pgs ! k) (new_item k) True (scale t) (dpr v))))
      \<and> printed (render_pages v t)
            = printed t @ concat (map (\<lambda>k. snd (update_render (pgs ! k) (new_item k) True (scale t) (dpr v)))
                                   [0..<length pgs]))"
proof (intro conjI impI allI)
  assume "get_pixmap pg (annots pg) (sc * d) = Inr pix \<and> samples pix = []"
  then show "update_render pg it live sc d = (it, [])"
    by (simp add: update_render_def)
next
  assume "get_pixmap pg (annots pg) (sc * d) = Inl msg"
  then show "update_render pg it live sc d = (it, [render_error it msg])"
    by (simp add: update_render_def)
next
  assume a: "doc t = Some pgs \<and> pgs \<noteq> []"
  then have nd: "\<not> no_doc t"
    by (simp add: no_doc_def)
  obtain items out where r: "render_loop (view_mode t) (view_width v) (scale t) (dpr v) pgs 0 0 0 [] [] = (items, out)"
    by (cases "render_loop (view_mode t) (view_width v) (scale t) (dpr v) pgs 0 0 0 [] []")
  from nd a r have pi: "page_items (render_pages v t) = items" and pr: "printed (render_pages v t) = printed t @ out"
    by (simp_all add: render_pages_def)
  from r have i: "items = fst (render_loop (view_mode t) (view_width v) (scale t) (dpr v) pgs 0 0 0 [] [])"
    and o: "out = snd (render_loop (view_mode t) (view_width v) (scale t) (dpr v) pgs 0 0 0 [] [])"
    by simp_all
  show "length (page_items (render_pages v t)) = length pgs"
    by (simp add: pi i render_loop_length)
  show "printed (render_pages v t)
      = printed t @ concat (map (\<lambda>k. snd (update_render (pgs ! k) (new_item k) True (scale t) (dpr v)))
                             [0..<length pgs])"
    by (simp add: pr o render_loop_out)
  fix k
  assume "k < length pgs"
  then show "item_pixmap (page_items (render_pages v t) ! k)
      = item_pixmap (fst (update_render (pgs ! k) (new_item k) True (scale t) (dpr v)))"
    using render_loop_pixmap [of k pgs "view_mode t" "view_width v" "scale t" "dpr v" 0 0 0 "[]" "[]"]
    by (simp add: pi i)
qed

lemma item_pixmap_new_item: "item_pixmap (new_item k) = None"
  by (simp add: new_item_def)

lemma show_nat_1: "show_nat (Suc 0) = ''1''"
  by (simp add: show_nat.simps digit_def)

theorem render_failures_local_witness:
  "get_pixmap ex_blank (annots ex_blank) (1 * 1) = Inr (ex_pixmap\<lparr>samples := []\<rparr>)
   \<and> samples (ex_pixmap\<lparr>samples := []\<rparr>) = []
   \<and> update_render ex_blank (new_item 2) True 1 1 = (new_item 2, [])
   \<and> get_pixmap ex_corrupt (annots ex_corrupt) (1 * 1) = Inl ''corrupt page''
   \<and> update_render ex_corrupt (new_item 1) True 1 1 = (new_item 1, [''Render Error on page 1: corrupt page''])
   \<and> doc ex_render_tab = Some [ex_page, ex_corrupt, ex_blank, ex_page]
   \<and> length (page_items (render_pages ex_view ex_render_tab)) = 4
   \<and> item_pixmap (page_items (render_pages ex_view ex_render_tab) ! 1) = None
   \<and> item_pixmap (page_items (render_pages ex_view ex_render_tab) ! 2) = None
   \<and> item_pixmap (page_items (render_pages ex_view ex_render_tab) ! 3)
       = Some \<lparr>img_data = [255, 255, 255], img_width = 100, img_height = 200, img_stride = 300,
                img_format = Format_RGB888, img_dpr = 1\<rparr>
   \<and> printed (render_pages ex_view ex_render_tab) = [''Render Error on page 1: corrupt page'']"
proof -
  have g1: "get_pixmap ex_blank (annots ex_blank) (1 * 1) = Inr (ex_pixmap\<lparr>samples := []\<rparr>)
      \<and> samples (ex_pixmap\<lparr>samples := []\<rparr>) = []"
    by (simp add: ex_blank_def)
  have g2: "get_pixmap ex_corrupt (annots ex_corrupt) (1 * 1) = Inl ''corrupt page''"
    by (simp add: ex_corrupt_def)
  have g3: "doc ex_render_tab = Some [ex_page, ex_corrupt, ex_blank, ex_page]
      \<and> [ex_page, ex_corrupt, ex_blank, ex_page] \<noteq> []"
    by (simp add: ex_render_tab_def)
  note th = render_failures_local [of ex_blank 1 1 "ex_pixmap\<lparr>samples := []\<rparr>" "new_item 2" True
      "''corrupt page''" ex_render_tab "[ex_page, ex_corrupt, ex_blank, ex_page]" ex_view]
  note th2 = render_failures_local [of ex_corrupt 1 1 "ex_pixmap" "new_item 1" True
      "''corrupt page''" ex_render_tab "[ex_page, ex_corrupt, ex_blank, ex_page]" ex_view]
  from th g1 have r1: "update_render ex_blank (new_item 2) True 1 1 = (new_item 2, [])"
    by blast
  from th2 g2 have "update_render ex_corrupt (new_item 1) True 1 1
      = (new_item 1, [render_error (new_item 1) ''corrupt page''])"
    by blast
  then have r2: "update_render ex_corrupt (new_item 1) True 1 1
      = (new_item 1, [''Render Error on page 1: corrupt page''])"
    by (simp add: render_error_def new_item_def show_nat_1)
  have sc: "scale ex_render_tab = 1" "dpr ex_view = 1" "printed ex_render_tab = []"
    by (simp_all add: ex_render_tab_def ex_tab_def init_tab_def ex_view_def)
  from th g3 have len: "length (page_items (render_pages ex_view ex_render_tab)) = 4"
    by simp
  from th g3 have px: "\<forall>k < 4. item_pixmap (page_items (render_pages ex_view ex_render_tab) ! k)
      = item_pixmap (fst (update_render ([ex_page, ex_corrupt, ex_blank, ex_page] ! k) (new_item k) True 1 1))"
    by (simp add: sc)
  have r2': "update_render ex_corrupt (new_item (Suc 0)) True 1 1
      = (new_item (Suc 0), [''Render Error on page 1: corrupt page''])"
    using r2 by simp
  have p1: "item_pixmap (page_items (render_pages ex_view ex_render_tab) ! 1) = None"
    using px [rule_format, of 1] by (simp add: r2' item_pixmap_new_item)
  have p2: "item_pixmap (page_items (render_pages ex_view ex_render_tab) ! 2) = None"
    using px [rule_format, of 2] by (simp add: r1 item_pixmap_new_item)
  have p3: "item_pixmap (page_items (render_pages ex_view ex_render_tab) ! 3)
       = Some \<lparr>img_data = [255, 255, 255], img_width = 100, img_height = 200, img_stride = 300,
                img_format = Format_RGB888, img_dpr = 1\<rparr>"
    using px [rule_format, of 3]
    by (simp add: update_render_def ex_page_def ex_pixmap_def new_item_def)
  have u1: "snd (update_render ex_page it True 1 1) = []" for it
    by (simp add: update_render_def ex_page_def ex_pixmap_def)
  have u2: "snd (update_render ex_blank it True 1 1) = []" for it
    by (simp add: update_render_def ex_blank_def ex_page_def ex_pixmap_def)
  from th g3 have "printed (render_pages ex_view ex_render_tab)
      = snd (update_render ex_page (new_item 0) True 1 1)
        @ snd (update_render ex_corrupt (new_item (Suc 0)) True 1 1)
        @ snd (update_render ex_blank (new_item (Suc (Suc 0))) True 1 1)
        @ snd (update_render ex_page (new_item (Suc (Suc (Suc 0)))) True 1 1)"
    by (simp add: sc)
  then have pr: "printed (render_pages ex_view ex_render_tab) = [''Render Error on page 1: corrupt page'']"
    by (simp add: u1 u2 r2')
  from g1 r1 g2 r2 g3 len p1 p2 p3 pr show ?thesis
    by blast
qed

section \<open>The closest quad\<close>

lemma closest_loop_hit:
  "\<exists>j<length qs. rect_contains e (quad_rect e (qs ! j)) (x, y) \<Longrightarrow>
   \<exists>j<length qs. closest_loop e x y qs i bd bi = int (i + j)
      \<and> rect_contains e (quad_rect e (qs ! j)) (x, y)
      \<and> (\<forall>k<j. \<not> rect_contains e (quad_rect e (qs ! k)) (x, y))"
proof (induction qs arbitrary: i bd bi)
  case Nil
  then show ?case by simp
next
  case (Cons q qs)
  show ?case
  proof (cases "rect_contains e (quad_rect e q) (x, y)")
    case True
    then have "closest_loop e x y (q # qs) i bd bi = int (i + 0)
        \<and> rect_contains e (quad_rect e ((q # qs) ! 0)) (x, y)
        \<and> (\<forall>k<0. \<not> rect_contains e (quad_rect e ((q # qs) ! k)) (x, y))"
      by simp
    then show ?thesis by blast
  next
    case False
    from Cons.prems obtain j where j: "j < length (q # qs)"
      "rect_contains e (quad_rect e ((q # qs) ! j)) (x, y)" by blast
    with False obtain j' where "j = Suc j'" by (cases j) auto
    with j have ex: "\<exists>j<length qs. rect_contains e (quad_rect e (qs ! j)) (x, y)" by auto
    have "\<exists>bd' bi'. closest_loop e x y (q # qs) i bd bi = closest_loop e x y qs (Suc i) bd' bi'"
      using False by (cases "case bd of None \<Rightarrow> True | Some b \<Rightarrow> quad_dist q x y < b") (auto simp: Let_def)
    then obtain bd' bi' where step: "closest_loop e x y (q # qs) i bd bi = closest_loop e x y qs (Suc i) bd' bi'"
      by blast
    from Cons.IH [OF ex, of "Suc i" bd' bi'] obtain m where m: "m < length qs"
      "closest_loop e x y qs (Suc i) bd' bi' = int (Suc i + m)"
      "rect_contains e (quad_rect e (qs ! m)) (x, y)"
      "\<forall>k<m. \<not> rect_contains e (quad_rect e (qs ! k)) (x, y)" by blast
    have "Suc m < length (q # qs)
        \<and> closest_loop e x y (q # qs) i bd bi = int (i + Suc m)
        \<and> rect_contains e (quad_rect e ((q # qs) ! Suc m)) (x, y)
        \<and> (\<forall>k<Suc m. \<not> rect_contains e (quad_rect e ((q # qs) ! k)) (x, y))"
      using m step False by (auto simp: less_Suc_eq_0_disj)
    then show ?thesis by blast
  qed
qed

lemma closest_loop_miss:
  "\<forall>q\<in>set qs. \<not> rect_contains e (quad_rect e q) (x, y) \<Longrightarrow>
   (closest_loop e x y qs i bd bi = bi
      \<and> (case bd of None \<Rightarrow> qs = [] | Some b \<Rightarrow> \<forall>q\<in>set qs. b \<le> quad_dist q x y))
   \<or> (\<exists>j<length qs. closest_loop e x y qs i bd bi = int (i + j)
        \<and> (\<forall>q\<in>set qs. quad_dist (qs ! j) x y \<le> quad_dist q x y)
        \<and> (case bd of None \<Rightarrow> True | Some b \<Rightarrow> quad_dist (qs ! j) x y < b))"
proof (induction qs arbitrary: i bd bi)
  case Nil
  then show ?case by (simp split: option.splits)
next
  case (Cons q qs)
  then have miss: "\<not> rect_contains e (quad_rect e q) (x, y)"
    and rest: "\<forall>q\<in>set qs. \<not> rect_contains e (quad_rect e q) (x, y)" by simp_all
  let ?d = "quad_dist q x y"
  show ?case
  proof (cases "case bd of None \<Rightarrow> True | Some b \<Rightarrow> ?d < b")
    case True
    then have step: "closest_loop e x y (q # qs) i bd bi = closest_loop e x y qs (Suc i) (Some ?d) (int i)"
      using miss by (simp add: Let_def)
    from Cons.IH [OF rest, of "Suc i" "Some ?d" "int i"]
    show ?thesis
    proof
      assume a: "closest_loop e x y qs (Suc i) (Some ?d) (int i) = int i
          \<and> (case Some ?d of None \<Rightarrow> qs = [] | Some b \<Rightarrow> \<forall>q\<in>set qs. b \<le> quad_dist q x y)"
      then have "0 < length (q # qs) \<and> closest_loop e x y (q # qs) i bd bi = int (i + 0)
          \<and> (\<forall>q'\<in>set (q # qs). quad_dist ((q # qs) ! 0) x y \<le> quad_dist q' x y)
          \<and> (case bd of None \<Rightarrow> True | Some b \<Rightarrow> quad_dist ((q # qs) ! 0) x y < b)"
        using step True by (auto split: option.splits)
      then show ?thesis by blast
    next
      assume "\<exists>j<length qs. closest_loop e x y qs (Suc i) (Some ?d) (int i) = int (Suc i + j)
          \<and> (\<forall>q\<in>set qs. quad_dist (qs ! j) x y \<le> quad_dist q x y)
          \<and> (case Some ?d of None \<Rightarrow> True | Some b \<Rightarrow> quad_dist (qs ! j) x y < b)"
      then obtain j where j: "j < length qs"
        "closest_loop e x y qs (Suc i) (Some ?d) (int i) = int (Suc i + j)"
        "\<forall>q\<in>set qs. quad_dist (qs ! j) x y \<le> quad_dist q x y"
        "quad_dist (qs ! j) x y < ?d" by auto
      have "Suc j < length (q # qs) \<and> closest_loop e x y (q # qs) i bd bi = int (i + Suc j)
          \<and> (\<forall>q'\<in>set (q # qs). quad_dist ((q # qs) ! Suc j) x y \<le> quad_dist q' x y)
          \<and> (case bd of None \<Rightarrow> True | Some b \<Rightarrow> quad_dist ((q # qs) ! Suc j) x y < b)"
        using j step True by (auto split: option.splits)
      then show ?thesis by blast
    qed
  next
    case False
    then obtain b where b: "bd = Some b" "b \<le> ?d"
      by (cases bd) auto
    have step: "closest_loop e x y (q # qs) i bd bi = closest_loop e x y qs (Suc i) bd bi"
      using miss b by (simp add: Let_def)
    from Cons.IH [OF rest, of "Suc i" bd bi]
    show ?thesis
    proof
      assume "closest_loop e x y qs (Suc i) bd bi = bi
          \<and> (case bd of None \<Rightarrow> qs = [] | Some b \<Rightarrow> \<forall>q\<in>set qs. b \<le> quad_dist q x y)"
      then show ?thesis
        using step b by auto
    next
      assume "\<exists>j<length qs. closest_loop e x y qs (Suc i) bd bi = int (Suc i + j)
          \<and> (\<forall>q\<in>set qs. quad_dist (qs ! j) x y \<le> quad_dist q x y)
          \<and> (case bd of None \<Rightarrow> True | Some b \<Rightarrow> quad_dist (qs ! j) x y < b)"
      then obtain j where j: "j < length qs"
        "closest_loop e x y qs (Suc i) bd bi = int (Suc i + j)"
        "\<forall>q\<in>set qs. quad_dist (qs ! j) x y \<le> quad_dist q x y"
        "quad_dist (qs ! j) x y < b" using b by auto
      have "Suc j < length (q # qs) \<and> closest_loop e x y (q # qs) i bd bi = int (i + Suc j)
          \<and> (\<forall>q'\<in>set (q # qs). quad_dist ((q # qs) ! Suc j) x y \<le> quad_dist q' x y)
          \<and> (case bd of None \<Rightarrow> True | Some b \<Rightarrow> quad_dist ((q # qs) ! Suc j) x y < b)"
        using j step b by auto
      then show ?thesis by blast
    qed
  qed
qed

text \<open>
  C1. \<open>find_closest_quad_index\<close> returns -1 exactly when the quad list is empty, and an
  index into the list otherwise. When the rectangle of some quad contains the point, the
  index returned is that of such a quad (the first one); when none does, it is the index of
  a quad whose centre is at the least squared distance from the point.
\<close>

theorem find_closest_quad_index_spec:
  "(find_closest_quad_index e t x y = - 1 \<longleftrightarrow> page_quads_cache t = [])
   \<and> (page_quads_cache t \<noteq> [] \<longrightarrow>
        0 \<le> find_closest_quad_index e t x y
        \<and> find_closest_quad_index e t x y < int (length (page_quads_cache t)))
   \<and> ((\<exists>q\<in>set (page_quads_cache t). rect_contains e (quad_rect e q) (x, y)) \<longrightarrow>
        rect_contains e (quad_rect e (page_quads_cache t ! nat (find_closest_quad_index e t x y))) (x, y)
        \<and> (\<forall>k < nat (find_closest_quad_index e t x y).
              \<not> rect_contains e (quad_rect e (page_quads_cache t ! k)) (x, y)))
   \<and> (page_quads_cache t \<noteq> [] \<and> (\<forall>q\<in>set (page_quads_cache t). \<not> rect_contains e (quad_rect e q) (x, y)) \<longrightarrow>
        (\<forall>q\<in>set (page_quads_cache t).
           quad_dist (page_quads_cache t ! nat (find_closest_quad_index e t x y)) x y \<le> quad_dist q x y))"
proof (cases "page_quads_cache t = []")
  case True
  then show ?thesis
    by (simp add: find_closest_quad_index_def)
next
  case False
  let ?qs = "page_quads_cache t"
  let ?r = "find_closest_quad_index e t x y"
  have r: "?r = closest_loop e x y ?qs 0 None (- 1)"
    using False by (simp add: find_closest_quad_index_def)
  show ?thesis
  proof (cases "\<exists>q\<in>set ?qs. rect_contains e (quad_rect e q) (x, y)")
    case True
    then have "\<exists>j<length ?qs. rect_contains e (quad_rect e (?qs ! j)) (x, y)"
      by (auto simp: in_set_conv_nth)
    from closest_loop_hit [OF this, of 0 None "- 1"] obtain j where j: "j < length ?qs"
      "?r = int j" "rect_contains e (quad_rect e (?qs ! j)) (x, y)"
      "\<forall>k<j. \<not> rect_contains e (quad_rect e (?qs ! k)) (x, y)"
      using r by auto
    then show ?thesis
      using False True by auto
  next
    case miss: False
    then have "\<forall>q\<in>set ?qs. \<not> rect_contains e (quad_rect e q) (x, y)" by blast
    from closest_loop_miss [OF this, of 0 None "- 1"] False obtain j where j: "j < length ?qs"
      "?r = int j" "\<forall>q\<in>set ?qs. quad_dist (?qs ! j) x y \<le> quad_dist q x y"
      using r by auto
    then show ?thesis
      using False miss by auto
  qed
qed

theorem find_closest_quad_index_spec_witness:
  "page_quads_cache ex_quads_tab \<noteq> []
   \<and> ex_quad 40 10 60 20 \<in> set (page_quads_cache ex_quads_tab)
   \<and> rect_contains ex_engine (quad_rect ex_engine (ex_quad 40 10 60 20)) (45, 12)
   \<and> find_closest_quad_index ex_engine ex_quads_tab 45 12 = 1
   \<and> \<not> rect_contains ex_engine (quad_rect ex_engine (ex_quad 10 10 30 20)) (100, 15)
   \<and> \<not> rect_contains ex_engine (quad_rect ex_engine (ex_quad 40 10 60 20)) (100, 15)
   \<and> find_closest_quad_index ex_engine ex_quads_tab 100 15 = 1
   \<and> quad_dist (page_quads_cache ex_quads_tab ! 1) 100 15 \<le> quad_dist (ex_quad 10 10 30 20) 100 15
   \<and> page_quads_cache ex_tab = [] \<and> find_closest_quad_index ex_engine ex_tab 45 12 = - 1"
proof -
  have c: "page_quads_cache ex_quads_tab = [ex_quad 10 10 30 20, ex_quad 40 10 60 20]"
    by (simp add: ex_quads_tab_def)
  have h1: "rect_contains ex_engine (quad_rect ex_engine (ex_quad 40 10 60 20)) (45, 12)"
    by (simp add: ex_engine_def ex_quad_def)
  have n1: "\<not> rect_contains ex_engine (quad_rect ex_engine (ex_quad 10 10 30 20)) (45, 12)"
    by (simp add: ex_engine_def ex_quad_def)
  have m1: "\<not> rect_contains ex_engine (quad_rect ex_engine (ex_quad 10 10 30 20)) (100, 15)"
    and m2: "\<not> rect_contains ex_engine (quad_rect ex_engine (ex_quad 40 10 60 20)) (100, 15)"
    by (simp_all add: ex_engine_def ex_quad_def)
  have e0: "page_quads_cache ex_tab = []"
    by (simp add: ex_tab_def init_tab_def)
  note a = find_closest_quad_index_spec [of ex_engine ex_quads_tab 45 12]
  note b = find_closest_quad_index_spec [of ex_engine ex_quads_tab 100 15]
  note z = find_closest_quad_index_spec [of ex_engine ex_tab 45 12]
  from z e0 have r0: "find_closest_quad_index ex_engine ex_tab 45 12 = - 1"
    by blast
  from a c h1 have a1: "0 \<le> find_closest_quad_index ex_engine ex_quads_tab 45 12
      \<and> find_closest_quad_index ex_engine ex_quads_tab 45 12 < 2
      \<and> rect_contains ex_engine (quad_rect ex_engine
            ([ex_quad 10 10 30 20, ex_quad 40 10 60 20] ! nat (find_closest_quad_index ex_engine ex_quads_tab 45 12))) (45, 12)"
    by simp
  have r1: "find_closest_quad_index ex_engine ex_quads_tab 45 12 = 1"
  proof (rule ccontr)
    assume "find_closest_quad_index ex_engine ex_quads_tab 45 12 \<noteq> 1"
    with a1 have "find_closest_quad_index ex_engine ex_quads_tab 45 12 = 0" by linarith
    with a1 n1 show False by simp
  qed
  have d: "quad_dist (ex_quad 10 10 30 20) 100 15 = 6400" "quad_dist (ex_quad 40 10 60 20) 100 15 = 2500"
    by (simp_all add: quad_dist_def ex_quad_def Let_def power2_eq_square)
  from b c m1 m2 have b1: "0 \<le> find_closest_quad_index ex_engine ex_quads_tab 100 15
      \<and> find_closest_quad_index ex_engine ex_quads_tab 100 15 < 2
      \<and> quad_dist ([ex_quad 10 10 30 20, ex_quad 40 10 60 20] ! nat (find_closest_quad_index ex_engine ex_quads_tab 100 15)) 100 15
           \<le> quad_dist (ex_quad 40 10 60 20) 100 15"
    by simp
  have r2: "find_closest_quad_index ex_engine ex_quads_tab 100 15 = 1"
  proof (rule ccontr)
    assume "find_closest_quad_index ex_engine ex_quads_tab 100 15 \<noteq> 1"
    with b1 have "find_closest_quad_index ex_engine ex_quads_tab 100 15 = 0" by linarith
    with b1 d show False by simp
  qed
  have l: "quad_dist (page_quads_cache ex_quads_tab ! 1) 100 15 \<le> quad_dist (ex_quad 10 10 30 20) 100 15"
    by (simp add: c d)
  from c h1 r1 m1 m2 r2 l e0 r0 show ?thesis
    by simp
qed

section \<open>The Dual layout\<close>

lemma item_w_pos [simp]: "item_w (it\<lparr>item_pos := p\<rparr>) = item_w it"
  by (simp add: item_w_def)

lemma item_h_pos [simp]: "item_h (it\<lparr>item_pos := p\<rparr>) = item_h it"
  by (simp add: item_h_def)

lemma dual_inv_step_even:
  assumes inv: "dual_inv items y nx" and ev: "even (length items)"
  shows "dual_inv (items @ [item\<lparr>item_pos := (0, y)\<rparr>]) y (0 + item_w item + 20)"
  unfolding dual_inv_def
proof (intro conjI allI impI)
  fix k
  assume "k < length (items @ [item\<lparr>item_pos := (0, y)\<rparr>])" "even k"
  then show "fst (item_pos ((items @ [item\<lparr>item_pos := (0, y)\<rparr>]) ! k)) = 0"
    using inv by (auto simp: dual_inv_def nth_append)
next
  fix k
  assume k: "k < length (items @ [item\<lparr>item_pos := (0, y)\<rparr>])" "odd k"
  with ev have "k < length items" by (cases "k = length items") auto
  moreover from this k have "k - 1 < length items" by simp
  ultimately show "item_pos ((items @ [item\<lparr>item_pos := (0, y)\<rparr>]) ! k)
      = (item_w ((items @ [item\<lparr>item_pos := (0, y)\<rparr>]) ! (k - 1)) + 20,
         ypos (items @ [item\<lparr>item_pos := (0, y)\<rparr>]) (k - 1))"
    using inv k by (simp add: dual_inv_def nth_append ypos_def)
next
  fix k
  assume k: "even k \<and> k + 2 < length (items @ [item\<lparr>item_pos := (0, y)\<rparr>])"
  show "ypos (items @ [item\<lparr>item_pos := (0, y)\<rparr>]) (k + 2)
      = ypos (items @ [item\<lparr>item_pos := (0, y)\<rparr>]) k
        + max (item_h ((items @ [item\<lparr>item_pos := (0, y)\<rparr>]) ! (k + 1)))
              (item_h ((items @ [item\<lparr>item_pos := (0, y)\<rparr>]) ! k)) + 20"
  proof (cases "k + 2 < length items")
    case True
    then show ?thesis
      using inv k by (simp add: dual_inv_def nth_append ypos_def)
  next
    case False
    with k have e: "k + 2 = length items" by simp
    then have "0 < length items" "length items - 2 = k" "length items - 1 = k + 1" by auto
    with inv ev have "y = ypos items k + max (item_h (items ! (k + 1))) (item_h (items ! k)) + 20"
      by (simp add: dual_inv_def)
    then show ?thesis
      using e by (simp add: nth_append ypos_def)
  qed
next
  assume "0 < length (items @ [item\<lparr>item_pos := (0, y)\<rparr>])"
  show "ypos (items @ [item\<lparr>item_pos := (0, y)\<rparr>]) 0 = 0"
    using inv by (cases "length items = 0") (auto simp: dual_inv_def nth_append ypos_def)
next
  assume "length (items @ [item\<lparr>item_pos := (0, y)\<rparr>]) = 0"
  then show "y = 0" by simp
next
  assume "odd (length (items @ [item\<lparr>item_pos := (0, y)\<rparr>]))"
  show "y = ypos (items @ [item\<lparr>item_pos := (0, y)\<rparr>]) (length (items @ [item\<lparr>item_pos := (0, y)\<rparr>]) - 1)"
    by (simp add: ypos_def)
  show "0 + item_w item + 20
      = item_w ((items @ [item\<lparr>item_pos := (0, y)\<rparr>]) ! (length (items @ [item\<lparr>item_pos := (0, y)\<rparr>]) - 1)) + 20"
    by simp
next
  assume "even (length (items @ [item\<lparr>item_pos := (0, y)\<rparr>])) \<and> 0 < length (items @ [item\<lparr>item_pos := (0, y)\<rparr>])"
  with ev show "y = ypos (items @ [item\<lparr>item_pos := (0, y)\<rparr>]) (length (items @ [item\<lparr>item_pos := (0, y)\<rparr>]) - 2)
      + max (item_h ((items @ [item\<lparr>item_pos := (0, y)\<rparr>]) ! (length (items @ [item\<lparr>item_pos := (0, y)\<rparr>]) - 1)))
            (item_h ((items @ [item\<lparr>item_pos := (0, y)\<rparr>]) ! (length (items @ [item\<lparr>item_pos := (0, y)\<rparr>]) - 2))) + 20"
    by simp
qed

lemma dual_inv_step_odd:
  assumes inv: "dual_inv items y nx" and od: "odd (length items)"
  shows "dual_inv (items @ [item\<lparr>item_pos := (nx, y)\<rparr>])
           (y + max (item_h item) (item_h (items ! (length items - 1))) + 20) nx"
  unfolding dual_inv_def
proof (intro conjI allI impI)
  let ?new = "items @ [item\<lparr>item_pos := (nx, y)\<rparr>]"
  from od have pos: "0 < length items" by (cases "length items") auto
  from inv od have last: "y = ypos items (length items - 1)" "nx = item_w (items ! (length items - 1)) + 20"
    by (simp_all add: dual_inv_def)
  {
    fix k
    assume k: "k < length ?new" "even k"
    with od have "k < length items" by (cases "k = length items") auto
    then show "fst (item_pos (?new ! k)) = 0"
      using inv k by (simp add: dual_inv_def nth_append)
  next
    fix k
    assume k: "k < length ?new" "odd k"
    show "item_pos (?new ! k) = (item_w (?new ! (k - 1)) + 20, ypos ?new (k - 1))"
    proof (cases "k = length items")
      case True
      then show ?thesis
        using last pos by (simp add: nth_append ypos_def)
    next
      case False
      with k have "k < length items" by simp
      moreover from this have "k - 1 < length items" by simp
      ultimately show ?thesis
        using inv k by (simp add: dual_inv_def nth_append ypos_def)
    qed
  next
    fix k
    assume k: "even k \<and> k + 2 < length ?new"
    then have "even (k + 2)" by simp
    with od have "k + 2 \<noteq> length items" by metis
    with k have "k + 2 < length items" by simp
    then show "ypos ?new (k + 2) = ypos ?new k + max (item_h (?new ! (k + 1))) (item_h (?new ! k)) + 20"
      using inv k by (simp add: dual_inv_def nth_append ypos_def)
  next
    show "ypos ?new 0 = 0"
      using inv pos by (simp add: dual_inv_def nth_append ypos_def)
  next
    assume "length ?new = 0"
    then show "y + max (item_h item) (item_h (items ! (length items - 1))) + 20 = 0" by simp
  next
    assume "odd (length ?new)"
    with od show "y + max (item_h item) (item_h (items ! (length items - 1))) + 20 = ypos ?new (length ?new - 1)"
      by simp
  next
    assume "odd (length ?new)"
    with od show "nx = item_w (?new ! (length ?new - 1)) + 20"
      by simp
  next
    have "length ?new - 2 = length items - 1" using pos by simp
    then show "y + max (item_h item) (item_h (items ! (length items - 1))) + 20
        = ypos ?new (length ?new - 2)
          + max (item_h (?new ! (length ?new - 1))) (item_h (?new ! (length ?new - 2))) + 20"
      using pos last by (simp add: nth_append ypos_def)
  }
qed

lemma render_loop_dual_inv:
  "dual_inv items y nx \<Longrightarrow> i = length items \<Longrightarrow>
   \<exists>y' nx'. dual_inv (fst (render_loop Dual vw sc d pgs i y nx items out)) y' nx'"
proof (induction pgs arbitrary: i y nx items out)
  case Nil
  then show ?case by auto
next
  case (Cons pg pgs)
  obtain it msgs where u: "update_render pg (new_item i) True sc d = (it, msgs)"
    by (cases "update_render pg (new_item i) True sc d")
  let ?item = "it\<lparr>in_scene := True\<rparr>"
  show ?case
  proof (cases "even i")
    case True
    with Cons.prems have "dual_inv (items @ [?item\<lparr>item_pos := (0, y)\<rparr>]) y (0 + item_w ?item + 20)"
      using dual_inv_step_even [of items y nx ?item] by simp
    from Cons.IH [OF this, of "Suc i"] Cons.prems True u show ?thesis
      by (simp add: place_def Let_def)
  next
    case False
    with Cons.prems have "dual_inv (items @ [?item\<lparr>item_pos := (nx, y)\<rparr>])
        (y + max (item_h ?item) (item_h (items ! (length items - 1))) + 20) nx"
      using dual_inv_step_odd [of items y nx ?item] by simp
    from Cons.IH [OF this, of "Suc i"] Cons.prems False u show ?thesis
      by (simp add: place_def Let_def odd_iff_mod_2_eq_one)
  qed
qed

lemma dual_rows_advance:
  assumes adv: "\<forall>k. even k \<and> k + 2 < length items \<longrightarrow>
        ypos items (k + 2) = ypos items k + max (item_h (items ! (k + 1))) (item_h (items ! k)) + 20"
    and nonneg: "\<forall>k<length items. 0 \<le> item_h (items ! k)"
  shows "j < j' \<Longrightarrow> 2 * j' < length items \<Longrightarrow>
     ypos items (2 * j) + max (item_h (items ! (2 * j + 1))) (item_h (items ! (2 * j))) + 20
       \<le> ypos items (2 * j')"
proof (induction j')
  case 0
  then show ?case by simp
next
  case (Suc j')
  from Suc.prems have lt: "2 * j' + 2 < length items" by simp
  with adv have step: "ypos items (2 * j' + 2)
      = ypos items (2 * j') + max (item_h (items ! (2 * j' + 1))) (item_h (items ! (2 * j'))) + 20"
    by simp
  show ?case
  proof (cases "j = j'")
    case True
    with step show ?thesis by simp
  next
    case False
    with Suc.prems have "j < j'" by simp
    from Suc.IH [OF this] lt have ih: "ypos items (2 * j)
        + max (item_h (items ! (2 * j + 1))) (item_h (items ! (2 * j))) + 20 \<le> ypos items (2 * j')"
      by simp
    from nonneg lt have "0 \<le> item_h (items ! (2 * j'))" by simp
    then have "0 \<le> max (item_h (items ! (2 * j' + 1))) (item_h (items ! (2 * j')))" by simp
    with ih step show ?thesis by simp
  qed
qed

lemma dual_ypos_row:
  assumes odds: "\<forall>k<length items. odd k \<longrightarrow>
        item_pos (items ! k) = (item_w (items ! (k - 1)) + 20, ypos items (k - 1))"
    and k: "k < length items"
  shows "ypos items k = ypos items (2 * (k div 2))"
proof (cases "even k")
  case True
  then show ?thesis by simp
next
  case False
  with odds k have "ypos items k = ypos items (k - 1)"
    by (simp add: ypos_def)
  moreover from False have "k - 1 = 2 * (k div 2)"
    by (metis odd_two_times_div_two_nat)
  ultimately show ?thesis by simp
qed

lemma dual_rows_below:
  assumes odds: "\<forall>k<length items. odd k \<longrightarrow>
        item_pos (items ! k) = (item_w (items ! (k - 1)) + 20, ypos items (k - 1))"
    and adv: "\<forall>k. even k \<and> k + 2 < length items \<longrightarrow>
        ypos items (k + 2) = ypos items k + max (item_h (items ! (k + 1))) (item_h (items ! k)) + 20"
    and nonneg: "\<forall>k<length items. 0 \<le> item_h (items ! k)"
    and k: "k < length items" "k' < length items" "k div 2 < k' div 2"
  shows "ypos items k + item_h (items ! k) + 20 \<le> ypos items k'"
proof -
  let ?j = "k div 2" and ?j' = "k' div 2"
  from k have lt: "2 * ?j' < length items" by simp
  from dual_rows_advance [OF adv nonneg k(3) lt]
  have a: "ypos items (2 * ?j) + max (item_h (items ! (2 * ?j + 1))) (item_h (items ! (2 * ?j))) + 20
      \<le> ypos items (2 * ?j')" .
  have "k = 2 * ?j \<or> k = 2 * ?j + 1" by presburger
  then have "item_h (items ! k) \<le> max (item_h (items ! (2 * ?j + 1))) (item_h (items ! (2 * ?j)))"
    by (metis max.cobounded1 max.cobounded2)
  with a dual_ypos_row [OF odds k(1)] dual_ypos_row [OF odds k(2)] show ?thesis
    by simp
qed

lemma dual_row_count:
  assumes odds: "\<forall>k<length items. odd k \<longrightarrow>
        item_pos (items ! k) = (item_w (items ! (k - 1)) + 20, ypos items (k - 1))"
    and adv: "\<forall>k. even k \<and> k + 2 < length items \<longrightarrow>
        ypos items (k + 2) = ypos items k + max (item_h (items ! (k + 1))) (item_h (items ! k)) + 20"
    and nonneg: "\<forall>k<length items. 0 \<le> item_h (items ! k)"
  shows "card (ypos items ` {..<length items}) = (length items + 1) div 2"
proof -
  let ?N = "length items" and ?g = "\<lambda>j. ypos items (2 * j)"
  let ?M = "(?N + 1) div 2"
  have lt: "2 * j < ?N" if "j < ?M" for j
    using that by presburger
  have strict: "?g j < ?g j'" if "j < j'" "j' < ?M" for j j'
  proof -
    from that lt have l: "2 * j' < ?N" "2 * j < ?N" by simp_all
    from nonneg l have "0 \<le> item_h (items ! (2 * j))" by simp
    then have "0 \<le> max (item_h (items ! (2 * j + 1))) (item_h (items ! (2 * j)))" by simp
    with dual_rows_advance [OF adv nonneg that(1) l(1)] show ?thesis by simp
  qed
  have inj: "inj_on ?g {..<?M}"
  proof (rule inj_onI)
    fix a b
    assume ab: "a \<in> {..<?M}" "b \<in> {..<?M}" "?g a = ?g b"
    show "a = b"
    proof (rule ccontr)
      assume "a \<noteq> b"
      then consider "a < b" | "b < a" by linarith
      then show False
      proof cases
        case 1
        with strict [of a b] ab show False by simp
      next
        case 2
        with strict [of b a] ab show False by simp
      qed
    qed
  qed
  have "ypos items ` {..<?N} = ?g ` {..<?M}"
  proof (intro equalityI subsetI)
    fix v
    assume "v \<in> ypos items ` {..<?N}"
    then obtain k where k: "k < ?N" "v = ypos items k" by auto
    from k(1) have "k div 2 < ?M" by presburger
    with k dual_ypos_row [OF odds k(1)] show "v \<in> ?g ` {..<?M}" by auto
  next
    fix v
    assume "v \<in> ?g ` {..<?M}"
    then obtain j where j: "j < ?M" "v = ?g j" by auto
    with lt [OF j(1)] show "v \<in> ypos items ` {..<?N}" by auto
  qed
  then have "card (ypos items ` {..<?N}) = card (?g ` {..<?M})" by simp
  also have "\<dots> = ?M" using inj by (simp add: card_image)
  finally show ?thesis .
qed

text \<open>
  C6. In Dual mode, for a document of N pages: every even-indexed page is at x = 0, every
  odd-indexed page is in the row of the page before it, 20 units right of that page's right
  edge; the first row is at y = 0 and each next row is lower by the larger of the two
  heights of the row plus 20. When no height is negative the rows are at (N + 1) div 2
  distinct offsets, N/2 for even N; for odd N the last page is at x = 0, alone in its row
  below all others, and no page reaches below its lower edge.
\<close>

theorem dual_layout_rows:
  "doc t = Some pgs \<and> pgs \<noteq> [] \<and> view_mode t = Dual \<Longrightarrow>
   length (page_items (render_pages v t)) = length pgs
   \<and> (\<forall>k<length pgs. even k \<longrightarrow> fst (item_pos (page_items (render_pages v t) ! k)) = 0)
   \<and> (\<forall>k<length pgs. odd k \<longrightarrow>
         item_pos (page_items (render_pages v t) ! k)
           = (item_w (page_items (render_pages v t) ! (k - 1)) + 20,
              ypos (page_items (render_pages v t)) (k - 1)))
   \<and> ypos (page_items (render_pages v t)) 0 = 0
   \<and> (\<forall>k. even k \<and> k + 2 < length pgs \<longrightarrow>
         ypos (page_items (render_pages v t)) (k + 2)
           = ypos (page_items (render_pages v t)) k
             + max (item_h (page_items (render_pages v t) ! (k + 1)))
                   (item_h (page_items (render_pages v t) ! k)) + 20)
   \<and> ((\<forall>k<length pgs. 0 \<le> item_h (page_items (render_pages v t) ! k)) \<longrightarrow>
         card (ypos (page_items (render_pages v t)) ` {..<length pgs}) = (length pgs + 1) div 2
         \<and> (even (length pgs) \<longrightarrow>
               card (ypos (page_items (render_pages v t)) ` {..<length pgs}) = length pgs div 2)
         \<and> (odd (length pgs) \<longrightarrow>
               fst (item_pos (page_items (render_pages v t) ! (length pgs - 1))) = 0
               \<and> (\<forall>k<length pgs - 1.
                     ypos (page_items (render_pages v t)) k
                       < ypos (page_items (render_pages v t)) (length pgs - 1))
               \<and> (\<forall>k<length pgs.
                     ypos (page_items (render_pages v t)) k + item_h (page_items (render_pages v t) ! k)
                       \<le> ypos (page_items (render_pages v t)) (length pgs - 1)
                           + item_h (page_items (render_pages v t) ! (length pgs - 1)))))"
proof -
  assume a: "doc t = Some pgs \<and> pgs \<noteq> [] \<and> view_mode t = Dual"
  let ?R = "page_items (render_pages v t)"
  from a have nd: "\<not> no_doc t" by (simp add: no_doc_def)
  have R: "?R = fst (render_loop Dual (view_width v) (scale t) (dpr v) pgs 0 0 0 [] [])"
    using nd a by (simp add: render_pages_def split: prod.splits)
  have len: "length ?R = length pgs"
    by (simp add: R render_loop_length)
  have "dual_inv [] 0 0" by (simp add: dual_inv_def)
  from render_loop_dual_inv [OF this, of 0 "view_width v" "scale t" "dpr v" pgs "[]"]
  obtain y' nx' where inv: "dual_inv ?R y' nx'"
    unfolding R by auto
  from a len have pos: "0 < length ?R" by simp
  from inv have evens: "\<forall>k<length ?R. even k \<longrightarrow> fst (item_pos (?R ! k)) = 0"
    and odds: "\<forall>k<length ?R. odd k \<longrightarrow>
        item_pos (?R ! k) = (item_w (?R ! (k - 1)) + 20, ypos ?R (k - 1))"
    and adv: "\<forall>k. even k \<and> k + 2 < length ?R \<longrightarrow>
        ypos ?R (k + 2) = ypos ?R k + max (item_h (?R ! (k + 1))) (item_h (?R ! k)) + 20"
    and first: "ypos ?R 0 = 0"
    using pos by (simp_all add: dual_inv_def)
  have rows: "card (ypos ?R ` {..<length ?R}) = (length ?R + 1) div 2
      \<and> (even (length ?R) \<longrightarrow> card (ypos ?R ` {..<length ?R}) = length ?R div 2)
      \<and> (odd (length ?R) \<longrightarrow>
            fst (item_pos (?R ! (length ?R - 1))) = 0
            \<and> (\<forall>k<length ?R - 1. ypos ?R k < ypos ?R (length ?R - 1))
            \<and> (\<forall>k<length ?R. ypos ?R k + item_h (?R ! k)
                    \<le> ypos ?R (length ?R - 1) + item_h (?R ! (length ?R - 1))))"
    if nonneg: "\<forall>k<length ?R. 0 \<le> item_h (?R ! k)"
  proof (intro conjI impI)
    show c: "card (ypos ?R ` {..<length ?R}) = (length ?R + 1) div 2"
      by (rule dual_row_count [OF odds adv nonneg])
    show "card (ypos ?R ` {..<length ?R}) = length ?R div 2" if "even (length ?R)"
      using c that by simp
  next
    assume od: "odd (length ?R)"
    then have ev: "even (length ?R - 1)" by simp
    from pos have l: "length ?R - 1 < length ?R" by simp
    from evens ev l show "fst (item_pos (?R ! (length ?R - 1))) = 0" by blast
    have below: "ypos ?R k + item_h (?R ! k) + 20 \<le> ypos ?R (length ?R - 1)"
      if "k < length ?R - 1" for k
    proof -
      from that od have "k div 2 < (length ?R - 1) div 2" by presburger
      moreover from that have "k < length ?R" by simp
      ultimately show ?thesis
        using dual_rows_below [OF odds adv nonneg _ l] by blast
    qed
    show "\<forall>k<length ?R - 1. ypos ?R k < ypos ?R (length ?R - 1)"
    proof (intro allI impI)
      fix k assume k: "k < length ?R - 1"
      then have "0 \<le> item_h (?R ! k)" using nonneg by simp
      with below [OF k] show "ypos ?R k < ypos ?R (length ?R - 1)" by simp
    qed
    show "\<forall>k<length ?R. ypos ?R k + item_h (?R ! k)
        \<le> ypos ?R (length ?R - 1) + item_h (?R ! (length ?R - 1))"
    proof (intro allI impI)
      fix k assume k: "k < length ?R"
      show "ypos ?R k + item_h (?R ! k) \<le> ypos ?R (length ?R - 1) + item_h (?R ! (length ?R - 1))"
      proof (cases "k = length ?R - 1")
        case True
        then show ?thesis by simp
      next
        case False
        with k have k': "k < length ?R - 1" by simp
        from nonneg l have "0 \<le> item_h (?R ! (length ?R - 1))" by blast
        with below [OF k'] show ?thesis by simp
      qed
    qed
  qed
  from len evens odds first adv rows show ?thesis
    by (simp only: len) blast
qed

lemma ex_dual3_items:
  "page_items (render_pages ex_view ex_dual3) = [ex_item 0 0 0, ex_item 1 120 0, ex_item 2 0 220]"
  by (simp add: render_pages_def no_doc_def ex_dual3_def ex_tab_def init_tab_def ex_view_def
      update_render_def ex_page_def ex_pixmap_def new_item_def place_def item_w_def item_h_def
      ex_item_def Let_def)

lemma ex_dual2_items:
  "page_items (render_pages ex_view ex_dual2) = [ex_item 0 0 0, ex_item 1 120 0]"
  by (simp add: render_pages_def no_doc_def ex_dual2_def ex_tab_def init_tab_def ex_view_def
      update_render_def ex_page_def ex_pixmap_def new_item_def place_def item_w_def item_h_def
      ex_item_def Let_def)

theorem dual_layout_rows_witness:
  "doc ex_dual3 = Some [ex_page, ex_page, ex_page] \<and> view_mode ex_dual3 = Dual
   \<and> doc ex_dual2 = Some [ex_page, ex_page] \<and> view_mode ex_dual2 = Dual
   \<and> map item_pos (page_items (render_pages ex_view ex_dual3)) = [(0, 0), (120, 0), (0, 220)]
   \<and> map item_h (page_items (render_pages ex_view ex_dual3)) = [200, 200, 200]
   \<and> card (ypos (page_items (render_pages ex_view ex_dual3)) ` {..<3}) = 2
   \<and> fst (item_pos (page_items (render_pages ex_view ex_dual3) ! 2)) = 0
   \<and> ypos (page_items (render_pages ex_view ex_dual3)) 1 < ypos (page_items (render_pages ex_view ex_dual3)) 2
   \<and> ypos (page_items (render_pages ex_view ex_dual3)) 2
       = ypos (page_items (render_pages ex_view ex_dual3)) 0
         + max (item_h (page_items (render_pages ex_view ex_dual3) ! 1))
               (item_h (page_items (render_pages ex_view ex_dual3) ! 0)) + 20
   \<and> card (ypos (page_items (render_pages ex_view ex_dual2)) ` {..<2}) = 1"
proof -
  let ?R = "page_items (render_pages ex_view ex_dual3)"
  let ?Q = "page_items (render_pages ex_view ex_dual2)"
  have p3: "doc ex_dual3 = Some [ex_page, ex_page, ex_page] \<and> [ex_page, ex_page, ex_page] \<noteq> []
      \<and> view_mode ex_dual3 = Dual"
    by (simp add: ex_dual3_def)
  have p2: "doc ex_dual2 = Some [ex_page, ex_page] \<and> [ex_page, ex_page] \<noteq> [] \<and> view_mode ex_dual2 = Dual"
    by (simp add: ex_dual2_def)
  have h: "item_h (ex_item n x y) = 200" for n x y
    by (simp add: item_h_def ex_item_def)
  have len3: "length [ex_page, ex_page, ex_page] = 3" and len2: "length [ex_page, ex_page] = 2"
    by simp_all
  have n3: "\<forall>k<3. 0 \<le> item_h (?R ! k)"
    by (simp add: ex_dual3_items h less_Suc_eq nth_Cons' eval_nat_numeral)
  have n2: "\<forall>k<2. 0 \<le> item_h (?Q ! k)"
    by (simp add: ex_dual2_items h less_Suc_eq nth_Cons' eval_nat_numeral)
  have par: "odd (3::nat)" "even (2::nat)" "even (0::nat) \<and> 0 + 2 < (3::nat)" "(1::nat) < 3 - 1"
    by simp_all
  note t3 = dual_layout_rows [OF p3, of ex_view, unfolded len3]
  note t2 = dual_layout_rows [OF p2, of ex_view, unfolded len2]
  from t3 n3 have "card (ypos ?R ` {..<3}) = (3 + 1) div 2"
    by blast
  then have c3: "card (ypos ?R ` {..<3}) = 2"
    by simp
  from t3 n3 par(1) have "fst (item_pos (?R ! (3 - 1))) = 0"
    by blast
  then have l3: "fst (item_pos (?R ! 2)) = 0"
    by simp
  from t3 n3 par(1) have "\<forall>k<3 - 1. ypos ?R k < ypos ?R (3 - 1)"
    by blast
  with par(4) have "ypos ?R 1 < ypos ?R (3 - 1)"
    by blast
  then have b3: "ypos ?R 1 < ypos ?R 2"
    by simp
  from t3 par(3) have "ypos ?R (0 + 2) = ypos ?R 0 + max (item_h (?R ! (0 + 1))) (item_h (?R ! 0)) + 20"
    by blast
  then have a3: "ypos ?R 2 = ypos ?R 0 + max (item_h (?R ! 1)) (item_h (?R ! 0)) + 20"
    by (simp add: numeral_2_eq_2)
  from t2 n2 par(2) have "card (ypos ?Q ` {..<2}) = 2 div 2"
    by blast
  then have c2: "card (ypos ?Q ` {..<2}) = 1"
    by simp
  have m: "map item_pos ?R = [(0, 0), (120, 0), (0, 220)]" "map item_h ?R = [200, 200, 200]"
    by (simp_all add: ex_dual3_items h) (simp add: ex_item_def)
  from p3 p2 m c3 l3 b3 a3 c2 show ?thesis
    by blast
qed

section \<open>The current page\<close>

lemma page_scan_none: "page_scan c its = None \<longleftrightarrow> (\<forall>it\<in>set its. \<not> straddles c it)"
  by (induction its) (auto simp: straddles_def sceneBoundingRect_def)

lemma page_scan_first:
  "k < length its \<Longrightarrow> straddles c (its ! k) \<Longrightarrow> \<forall>j<k. \<not> straddles c (its ! j) \<Longrightarrow>
   page_scan c its = Some (its ! k)"
proof (induction its arbitrary: k)
  case Nil
  then show ?case by simp
next
  case (Cons it its)
  show ?case
  proof (cases k)
    case 0
    with Cons.prems show ?thesis
      by (simp add: straddles_def sceneBoundingRect_def)
  next
    case (Suc k')
    with Cons.prems have "\<not> straddles c it" by auto
    moreover from Cons.prems Suc have "page_scan c its = Some (its ! k')"
      by (intro Cons.IH) auto
    ultimately show ?thesis
      using Suc by (auto simp: straddles_def sceneBoundingRect_def)
  qed
qed

lemma ex_loaded_state:
  "page_items ex_loaded = [ex_item 0 350 0, ex_item 1 350 220]"
  "doc ex_loaded = Some [ex_page, ex_page]"
  "emitted ex_loaded = [Zoom_changed 1, Page_changed ''2 / 2'']"
  by (simp_all add: ex_loaded_def load_document_def check_current_page_def render_pages_def no_doc_def
      ex_tab_def init_tab_def ex_view_def update_render_def ex_page_def ex_pixmap_def new_item_def
      place_def item_w_def item_h_def ex_item_def sceneBoundingRect_def Let_def show_nat.simps digit_def)

text \<open>
  C5, as stated, fails: a document of two pages 200 units high is laid out at y = 0 and
  y = 220; with the centre of the viewport at y = 210, in the padding between the pages, no
  page straddles the centre and \<open>check_current_page\<close> reports nothing.
\<close>

theorem current_page_gap_counterexample:
  "doc ex_loaded = Some [ex_page, ex_page]
   \<and> center_y ex_low_view = 210
   \<and> \<not> straddles 210 (page_items ex_loaded ! 0) \<and> \<not> straddles 210 (page_items ex_loaded ! 1)
   \<and> check_current_page ex_low_view ex_loaded = ex_loaded"
  by (simp add: ex_loaded_state center_y_def ex_low_view_def ex_view_def straddles_def ex_item_def
      item_h_def check_current_page_def sceneBoundingRect_def)

lemma render_loop_page_num:
  "k < length pgs \<Longrightarrow>
   page_num (fst (render_loop m vw sc d pgs i y nx items out) ! (length items + k)) = i + k
   \<and> in_scene (fst (render_loop m vw sc d pgs i y nx items out) ! (length items + k))"
proof (induction pgs arbitrary: k i y nx items out)
  case Nil
  then show ?case by simp
next
  case (Cons pg pgs)
  show ?case
  proof (cases k)
    case 0
    obtain it msgs where u: "update_render pg (new_item i) True sc d = (it, msgs)"
      by (cases "update_render pg (new_item i) True sc d")
    have "page_num (new_item i) = i"
      by (simp add: new_item_def)
    with update_render_page_num [of pg "new_item i" True sc d] u have "page_num it = i"
      by simp
    with 0 u show ?thesis
      by (simp add: Let_def render_loop_prefix split: prod.splits)
  next
    case (Suc k')
    with Cons.prems have k': "k' < length pgs" by simp
    have ih: "page_num (fst (render_loop m vw sc d pgs (Suc i) y' nx' its out') ! Suc (length items + k')) = Suc (i + k')
        \<and> in_scene (fst (render_loop m vw sc d pgs (Suc i) y' nx' its out') ! Suc (length items + k'))"
      if "length its = Suc (length items)" for y' nx' its out'
      using Cons.IH [OF k', where i = "Suc i" and items = its and y = y' and nx = nx' and out = out'] that
      by simp
    show ?thesis
      using Suc by (simp add: Let_def ih split: prod.splits)
  qed
qed

text \<open>
  C5, amended. \<open>check_current_page\<close> reports at most one page. When no page in the scene
  straddles the centre of the viewport, nothing is reported and the tab is unchanged. When
  some page does, the first such page in page order is reported, as its page number plus
  one, \<open>" / "\<close>, and the number of pages. After \<open>render_pages\<close> every item is in the scene and
  the page number of the item at index \<open>k\<close> is \<open>k\<close>.
\<close>

theorem check_current_page_reports:
  "((\<forall>it\<in>set (page_items t). \<not> straddles (center_y v) it) \<longrightarrow> check_current_page v t = t)
   \<and> (doc t = Some pgs \<and> k < length (page_items t) \<and> straddles (center_y v) (page_items t ! k)
        \<and> (\<forall>j<k. \<not> straddles (center_y v) (page_items t ! j)) \<longrightarrow>
        check_current_page v t
          = t\<lparr>emitted := emitted t @
               [Page_changed (show_nat (page_num (page_items t ! k) + 1) @ '' / '' @ show_nat (length pgs))]\<rparr>)
   \<and> (doc t = Some pgs \<and> pgs \<noteq> [] \<and> k < length pgs \<longrightarrow>
        page_num (page_items (render_pages v t) ! k) = k
        \<and> in_scene (page_items (render_pages v t) ! k))"
proof (intro conjI impI)
  assume "\<forall>it\<in>set (page_items t). \<not> straddles (center_y v) it"
  then have "page_scan (center_y v) (page_items t) = None"
    by (simp add: page_scan_none)
  then show "check_current_page v t = t"
    by (simp add: check_current_page_def center_y_def)
next
  assume a: "doc t = Some pgs \<and> k < length (page_items t) \<and> straddles (center_y v) (page_items t ! k)
      \<and> (\<forall>j<k. \<not> straddles (center_y v) (page_items t ! j))"
  then have "page_scan (center_y v) (page_items t) = Some (page_items t ! k)"
    by (intro page_scan_first) auto
  moreover from a have "page_items t \<noteq> []" by auto
  ultimately show "check_current_page v t
      = t\<lparr>emitted := emitted t @
           [Page_changed (show_nat (page_num (page_items t ! k) + 1) @ '' / '' @ show_nat (length pgs))]\<rparr>"
    using a by (simp add: check_current_page_def center_y_def)
next
  assume a: "doc t = Some pgs \<and> pgs \<noteq> [] \<and> k < length pgs"
  then have R: "page_items (render_pages v t)
      = fst (render_loop (view_mode t) (view_width v) (scale t) (dpr v) pgs 0 0 0 [] [])"
    by (simp add: render_pages_def no_doc_def split: prod.splits)
  from a render_loop_page_num [of k pgs "view_mode t" "view_width v" "scale t" "dpr v" 0 0 0 "[]" "[]"]
  show "page_num (page_items (render_pages v t) ! k) = k"
    and "in_scene (page_items (render_pages v t) ! k)"
    by (simp_all add: R)
qed

theorem check_current_page_reports_witness:
  "doc ex_loaded = Some [ex_page, ex_page]
   \<and> center_y ex_view = 300
   \<and> straddles 300 (page_items ex_loaded ! 1) \<and> \<not> straddles 300 (page_items ex_loaded ! 0)
   \<and> emitted (check_current_page ex_view ex_loaded) = emitted ex_loaded @ [Page_changed ''2 / 2'']
   \<and> \<not> straddles (center_y ex_low_view) (page_items ex_loaded ! 0)
   \<and> \<not> straddles (center_y ex_low_view) (page_items ex_loaded ! 1)
   \<and> check_current_page ex_low_view ex_loaded = ex_loaded
   \<and> page_num (page_items (render_pages ex_view ex_loaded) ! 1) = 1"
proof -
  have d: "doc ex_loaded = Some [ex_page, ex_page]"
    by (rule ex_loaded_state)
  have c: "center_y ex_view = 300" "center_y ex_low_view = 210"
    by (simp_all add: center_y_def ex_low_view_def ex_view_def)
  have s: "straddles 300 (page_items ex_loaded ! 1)" "\<not> straddles 300 (page_items ex_loaded ! 0)"
    "\<not> straddles 210 (page_items ex_loaded ! 0)" "\<not> straddles 210 (page_items ex_loaded ! 1)"
    by (simp_all add: ex_loaded_state straddles_def ex_item_def item_h_def)
  have n: "\<forall>it\<in>set (page_items ex_loaded). \<not> straddles (center_y ex_low_view) it"
    using s by (simp add: ex_loaded_state c)
  have f: "\<forall>j<1. \<not> straddles (center_y ex_view) (page_items ex_loaded ! j)"
    using s by (simp add: c)
  have k: "(1::nat) < length (page_items ex_loaded)" "(1::nat) < length [ex_page, ex_page]"
    "[ex_page, ex_page] \<noteq> []"
    by (simp_all add: ex_loaded_state)
  note a = check_current_page_reports [of ex_loaded ex_low_view "[ex_page, ex_page]" 1]
  note b = check_current_page_reports [of ex_loaded ex_view "[ex_page, ex_page]" 1]
  from a n have r1: "check_current_page ex_low_view ex_loaded = ex_loaded"
    by blast
  from b d k f s(1) c(1) have "check_current_page ex_view ex_loaded
      = ex_loaded\<lparr>emitted := emitted ex_loaded @
          [Page_changed (show_nat (page_num (page_items ex_loaded ! 1) + 1) @ '' / '' @ show_nat (length [ex_page, ex_page]))]\<rparr>"
    by simp
  then have r2: "emitted (check_current_page ex_view ex_loaded) = emitted ex_loaded @ [Page_changed ''2 / 2'']"
    by (simp add: ex_loaded_state ex_item_def show_nat.simps digit_def)
  from b d k have r3: "page_num (page_items (render_pages ex_view ex_loaded) ! 1) = 1"
    by blast
  from d c s r1 r2 r3 show ?thesis
    by simp
qed

section \<open>The eraser\<close>

lemma erase_scan_none: "erase_scan e pt as = None \<longleftrightarrow> (\<forall>a\<in>set as. \<not> erasable e pt a)"
  by (induction as) (auto simp: erasable_def)

lemma erase_scan_first:
  "erasable e pt a \<Longrightarrow> \<forall>b\<in>set pre. \<not> erasable e pt b \<Longrightarrow>
   erase_scan e pt (pre @ a # post) = Some (pre @ post)"
  by (induction pre) (auto simp: erasable_def)

lemma eraser_loop_skip:
  "\<forall>it\<in>set pre. \<not> (in_scene it \<and> rectf_contains v (sceneBoundingRect it) sp) \<Longrightarrow>
   eraser_loop e v t sp k0 (pre @ rest) = eraser_loop e v t sp (k0 + length pre) rest"
  by (induction pre arbitrary: k0) auto

lemma eraser_loop_at:
  assumes u: "under_pointer v (page_items t) sp k"
  shows "eraser_loop e v t sp 0 (page_items t)
     = eraser_loop e v t sp k (page_items t ! k # drop (Suc k) (page_items t))"
proof -
  from u have k: "k < length (page_items t)" by (simp add: under_pointer_def)
  have split: "page_items t = take k (page_items t) @ page_items t ! k # drop (Suc k) (page_items t)"
    using k by (simp add: id_take_nth_drop)
  have "\<forall>it\<in>set (take k (page_items t)). \<not> (in_scene it \<and> rectf_contains v (sceneBoundingRect it) sp)"
  proof
    fix it
    assume "it \<in> set (take k (page_items t))"
    then obtain j where "j < k" "it = page_items t ! j"
      using k by (auto simp: in_set_conv_nth)
    with u show "\<not> (in_scene it \<and> rectf_contains v (sceneBoundingRect it) sp)"
      by (simp add: under_pointer_def)
  qed
  from eraser_loop_skip [OF this, of e t 0 "page_items t ! k # drop (Suc k) (page_items t)"] k
  have "eraser_loop e v t sp 0 (take k (page_items t) @ page_items t ! k # drop (Suc k) (page_items t))
      = eraser_loop e v t sp k (page_items t ! k # drop (Suc k) (page_items t))"
    by simp
  with split show ?thesis by simp
qed

lemma eraser_no_hit:
  assumes u: "under_pointer v (page_items t) (mapToScene v p) k"
    and sc: "scale t \<noteq> 0"
    and pg: "page_obj t (page_num (page_items t ! k)) = Some pg"
    and none: "\<forall>a\<in>set (annots pg). \<not> erasable e (local_point t (page_items t ! k) (mapToScene v p)) a"
  shows "process_eraser e v t p = t"
proof -
  from none have "erase_scan e (local_point t (page_items t ! k) (mapToScene v p)) (annots pg) = None"
    by (simp add: erase_scan_none)
  with u sc pg show ?thesis
    by (simp add: process_eraser_def eraser_loop_at [OF u] under_pointer_def local_point_def Let_def)
qed

lemma eraser_hit:
  assumes u: "under_pointer v (page_items t) (mapToScene v p) k"
    and sc: "scale t \<noteq> 0"
    and pg: "page_obj t (page_num (page_items t ! k)) = Some pg"
    and ann: "annots pg = pre @ a # post"
    and hit: "erasable e (local_point t (page_items t ! k) (mapToScene v p)) a"
    and first: "\<forall>b\<in>set pre. \<not> erasable e (local_point t (page_items t ! k) (mapToScene v p)) b"
  shows "process_eraser e v t p
     = (set_page t (page_num (page_items t ! k)) (pg\<lparr>annots := pre @ post\<rparr>))
         \<lparr>page_items := (page_items t)
            [k := fst (update_render (pg\<lparr>annots := pre @ post\<rparr>) (page_items t ! k) True (scale t) (dpr v))],
          printed := printed t
            @ snd (update_render (pg\<lparr>annots := pre @ post\<rparr>) (page_items t ! k) True (scale t) (dpr v))\<rparr>"
proof -
  from erase_scan_first [OF hit first, of post] ann
  have "erase_scan e (local_point t (page_items t ! k) (mapToScene v p)) (annots pg) = Some (pre @ post)"
    by simp
  with u sc pg show ?thesis
    by (simp add: process_eraser_def eraser_loop_at [OF u] under_pointer_def local_point_def Let_def
        split: prod.splits)
qed

lemma update_render_in_scene [simp]: "in_scene (fst (update_render pg it live sc d)) = in_scene it"
  by (simp add: update_render_def split: sum.splits)

lemma page_obj_set_page:
  "page_obj t n = Some pg \<Longrightarrow>
   page_obj (set_page t n pg') m = (if m = n then Some pg' else page_obj t m)"
  by (auto simp: page_obj_def set_page_def split: option.splits if_splits)

text \<open>
  C7. Let a press in Erase mode fall on a page (the first item of the scene containing the
  scene point), with a scale other than zero. If no annotation of that page is a highlight
  whose rectangle contains the point in page units, nothing changes. Otherwise the first
  such annotation in the page's order is removed and no other: the page keeps the
  annotations before and after it, every other page is unchanged, and the item of the page
  is rendered again. If that was the only such annotation and the page rendered again
  still lies under the pointer, a second press at the same point changes nothing.
\<close>

theorem eraser_first_match:
  "under_pointer v (page_items t) (mapToScene v p) k \<and> scale t \<noteq> 0
     \<and> page_obj t (page_num (page_items t ! k)) = Some pg \<Longrightarrow>
   ((\<forall>a\<in>set (annots pg). \<not> erasable e (local_point t (page_items t ! k) (mapToScene v p)) a) \<longrightarrow>
      process_eraser e v t p = t)
   \<and> (annots pg = pre @ a # post
        \<and> erasable e (local_point t (page_items t ! k) (mapToScene v p)) a
        \<and> (\<forall>b\<in>set pre. \<not> erasable e (local_point t (page_items t ! k) (mapToScene v p)) b) \<longrightarrow>
      page_obj (process_eraser e v t p) (page_num (page_items t ! k)) = Some (pg\<lparr>annots := pre @ post\<rparr>)
      \<and> (\<forall>m. m \<noteq> page_num (page_items t ! k) \<longrightarrow> page_obj (process_eraser e v t p) m = page_obj t m)
      \<and> page_items (process_eraser e v t p)
          = (page_items t)[k := fst (update_render (pg\<lparr>annots := pre @ post\<rparr>) (page_items t ! k) True
                                      (scale t) (dpr v))]
      \<and> printed (process_eraser e v t p)
          = printed t @ snd (update_render (pg\<lparr>annots := pre @ post\<rparr>) (page_items t ! k) True
                               (scale t) (dpr v))
      \<and> ((\<forall>b\<in>set post. \<not> erasable e (local_point t (page_items t ! k) (mapToScene v p)) b)
           \<and> rectf_contains v
                (sceneBoundingRect (fst (update_render (pg\<lparr>annots := pre @ post\<rparr>) (page_items t ! k) True
                                           (scale t) (dpr v))))
                (mapToScene v p) \<longrightarrow>
          process_eraser e v (process_eraser e v t p) p = process_eraser e v t p))"
proof -
  assume a0: "under_pointer v (page_items t) (mapToScene v p) k \<and> scale t \<noteq> 0
     \<and> page_obj t (page_num (page_items t ! k)) = Some pg"
  then have u: "under_pointer v (page_items t) (mapToScene v p) k" and sc: "scale t \<noteq> 0"
    and pg: "page_obj t (page_num (page_items t ! k)) = Some pg" by simp_all
  let ?it = "page_items t ! k" and ?sp = "mapToScene v p"
  let ?n = "page_num ?it"
  let ?pt = "local_point t ?it ?sp"
  let ?pg' = "pg\<lparr>annots := pre @ post\<rparr>"
  let ?it' = "fst (update_render ?pg' ?it True (scale t) (dpr v))"
  let ?t' = "process_eraser e v t p"
  have part1: "process_eraser e v t p = t" if "\<forall>a\<in>set (annots pg). \<not> erasable e ?pt a"
    using eraser_no_hit [OF u sc pg that] .
  have part2: "page_obj ?t' ?n = Some ?pg'
      \<and> (\<forall>m. m \<noteq> ?n \<longrightarrow> page_obj ?t' m = page_obj t m)
      \<and> page_items ?t' = (page_items t)[k := ?it']
      \<and> printed ?t' = printed t @ snd (update_render ?pg' ?it True (scale t) (dpr v))
      \<and> ((\<forall>b\<in>set post. \<not> erasable e ?pt b) \<and> rectf_contains v (sceneBoundingRect ?it') ?sp \<longrightarrow>
            process_eraser e v ?t' p = ?t')"
    if h: "annots pg = pre @ a # post \<and> erasable e ?pt a \<and> (\<forall>b\<in>set pre. \<not> erasable e ?pt b)"
  proof -
    from h have ann: "annots pg = pre @ a # post" and hit: "erasable e ?pt a"
      and first: "\<forall>b\<in>set pre. \<not> erasable e ?pt b" by simp_all
    note eq = eraser_hit [OF u sc pg ann hit first]
    have po: "page_obj ?t' m = (if m = ?n then Some ?pg' else page_obj t m)" for m
      using page_obj_set_page [OF pg, of ?pg' m] by (simp add: eq page_obj_def)
    have items: "page_items ?t' = (page_items t)[k := ?it']"
      by (simp add: eq set_page_def)
    have pr: "printed ?t' = printed t @ snd (update_render ?pg' ?it True (scale t) (dpr v))"
      by (simp add: eq set_page_def)
    have sc': "scale ?t' = scale t"
      by (simp add: eq set_page_def)
    have again: "process_eraser e v ?t' p = ?t'"
      if only: "\<forall>b\<in>set post. \<not> erasable e ?pt b" and still: "rectf_contains v (sceneBoundingRect ?it') ?sp"
    proof -
      from u have k: "k < length (page_items t)" by (simp add: under_pointer_def)
      have nth: "page_items ?t' ! k = ?it'"
        using k by (simp add: items)
      have u': "under_pointer v (page_items ?t') ?sp k"
        using u still k by (simp add: under_pointer_def items)
      have sc2: "scale ?t' \<noteq> 0"
        using sc sc' by simp
      have pg2: "page_obj ?t' (page_num (page_items ?t' ! k)) = Some ?pg'"
        by (simp add: nth po)
      have lp: "local_point ?t' (page_items ?t' ! k) ?sp = ?pt"
        by (simp add: nth local_point_def mapFromScene_def sc')
      have none: "\<forall>b\<in>set (annots ?pg'). \<not> erasable e (local_point ?t' (page_items ?t' ! k) ?sp) b"
        using first only by (auto simp: lp)
      from eraser_no_hit [OF u' sc2 pg2 none] show ?thesis .
    qed
    from po items pr again show ?thesis
      by simp
  qed
  from part1 part2 show ?thesis
    by blast
qed

lemma ex_erase_tab_state:
  "page_items (ex_erase_tab as) = [ex_item 0 350 0]"
  "doc (ex_erase_tab as) = Some [ex_marked as]"
  "scale (ex_erase_tab as) = 1"
  by (simp_all add: ex_erase_tab_def ex_marked_def render_pages_def no_doc_def
      ex_tab_def init_tab_def ex_view_def update_render_def ex_page_def ex_pixmap_def new_item_def
      place_def item_w_def item_h_def ex_item_def Let_def)

lemma ex_rerender:
  "update_render (ex_marked as) (ex_item 0 350 0) True 1 (dpr ex_view) = (ex_item 0 350 0, [])"
  by (simp add: update_render_def ex_marked_def ex_page_def ex_pixmap_def ex_item_def ex_view_def)

theorem eraser_first_match_witness:
  "under_pointer ex_view (page_items (ex_erase_tab [ex_note, ex_hl, ex_hl2])) (mapToScene ex_view (400, 50)) 0
   \<and> scale (ex_erase_tab [ex_note, ex_hl, ex_hl2]) \<noteq> 0
   \<and> page_obj (ex_erase_tab [ex_note, ex_hl, ex_hl2]) 0 = Some (ex_marked [ex_note, ex_hl, ex_hl2])
   \<and> page_obj (process_eraser ex_engine ex_view (ex_erase_tab [ex_note, ex_hl, ex_hl2]) (400, 50)) 0
       = Some (ex_marked [ex_note, ex_hl2])
   \<and> page_obj (process_eraser ex_engine ex_view (ex_erase_tab [ex_note, ex_hl]) (400, 50)) 0
       = Some (ex_marked [ex_note])
   \<and> process_eraser ex_engine ex_view
         (process_eraser ex_engine ex_view (ex_erase_tab [ex_note, ex_hl]) (400, 50)) (400, 50)
       = process_eraser ex_engine ex_view (ex_erase_tab [ex_note, ex_hl]) (400, 50)
   \<and> process_eraser ex_engine ex_view (ex_erase_tab [ex_note, ex_hl, ex_hl2]) (360, 150)
       = ex_erase_tab [ex_note, ex_hl, ex_hl2]"
proof -
  let ?T = "ex_erase_tab [ex_note, ex_hl, ex_hl2]" and ?U = "ex_erase_tab [ex_note, ex_hl]"
  have up: "under_pointer ex_view (page_items (ex_erase_tab as)) (mapToScene ex_view (400, 50)) 0"
    "under_pointer ex_view (page_items (ex_erase_tab as)) (mapToScene ex_view (360, 150)) 0" for as
    by (simp_all add: under_pointer_def ex_erase_tab_state ex_view_def sceneBoundingRect_def ex_item_def
        item_w_def item_h_def)
  have sc: "scale (ex_erase_tab as) \<noteq> 0" for as
    by (simp add: ex_erase_tab_state)
  have po: "page_obj (ex_erase_tab as) (page_num (page_items (ex_erase_tab as) ! 0)) = Some (ex_marked as)" for as
    by (simp add: page_obj_def ex_erase_tab_state ex_item_def)
  have lp: "local_point (ex_erase_tab as) (page_items (ex_erase_tab as) ! 0) (mapToScene ex_view (400, 50)) = (50, 50)"
    "local_point (ex_erase_tab as) (page_items (ex_erase_tab as) ! 0) (mapToScene ex_view (360, 150)) = (10, 150)" for as
    by (simp_all add: local_point_def mapFromScene_def ex_erase_tab_state ex_item_def ex_view_def)
  have er: "\<not> erasable ex_engine (50, 50) ex_note" "erasable ex_engine (50, 50) ex_hl"
    "erasable ex_engine (50, 50) ex_hl2"
    "\<not> erasable ex_engine (10, 150) ex_note" "\<not> erasable ex_engine (10, 150) ex_hl"
    "\<not> erasable ex_engine (10, 150) ex_hl2"
    by (simp_all add: erasable_def ex_engine_def ex_note_def ex_hl_def ex_hl2_def)
  have an: "annots (ex_marked as) = as" "(ex_marked as)\<lparr>annots := bs\<rparr> = ex_marked bs" for as bs
    by (simp_all add: ex_marked_def)
  have n0: "page_num (page_items (ex_erase_tab as) ! 0) = 0" for as
    by (simp add: ex_erase_tab_state ex_item_def)
  have rr: "fst (update_render (ex_marked bs) (page_items (ex_erase_tab as) ! 0) True
      (scale (ex_erase_tab as)) (dpr ex_view)) = ex_item 0 350 0" for as bs
    by (simp add: ex_erase_tab_state ex_rerender)
  have still: "rectf_contains ex_view (sceneBoundingRect (ex_item 0 350 0)) (mapToScene ex_view (400, 50))"
    by (simp add: ex_view_def sceneBoundingRect_def ex_item_def item_w_def item_h_def)
  note A = eraser_first_match [where v = ex_view and t = ?T and p = "(400, 50)" and k = 0
      and pg = "ex_marked [ex_note, ex_hl, ex_hl2]" and e = ex_engine and pre = "[ex_note]"
      and a = ex_hl and post = "[ex_hl2]"]
  note B = eraser_first_match [where v = ex_view and t = ?U and p = "(400, 50)" and k = 0
      and pg = "ex_marked [ex_note, ex_hl]" and e = ex_engine and pre = "[ex_note]"
      and a = ex_hl and post = "[]"]
  note C = eraser_first_match [where v = ex_view and t = ?T and p = "(360, 150)" and k = 0
      and pg = "ex_marked [ex_note, ex_hl, ex_hl2]" and e = ex_engine and pre = "[ex_note]"
      and a = ex_hl and post = "[ex_hl2]"]
  from A up(1) sc po have r1: "page_obj (process_eraser ex_engine ex_view ?T (400, 50)) 0
      = Some (ex_marked [ex_note, ex_hl2])"
    by (simp add: lp er an n0)
  from B up(1) sc po have r2: "page_obj (process_eraser ex_engine ex_view ?U (400, 50)) 0
        = Some (ex_marked [ex_note])
      \<and> process_eraser ex_engine ex_view (process_eraser ex_engine ex_view ?U (400, 50)) (400, 50)
        = process_eraser ex_engine ex_view ?U (400, 50)"
    by (simp add: lp er an n0 rr still)
  from C up(2) sc po have r3: "process_eraser ex_engine ex_view ?T (360, 150) = ?T"
    by (simp add: lp er an)
  from up(1) [of "[ex_note, ex_hl, ex_hl2]"] sc [of "[ex_note, ex_hl, ex_hl2]"]
    po [of "[ex_note, ex_hl, ex_hl2]"] r1 r2 r3 show ?thesis
    by (simp add: n0)
qed

section \<open>Copying the selection\<close>





text \<open>
  \<open>copy_selection\<close> is connected to the \<open>Copy Text\<close> action of the context menu and to
  nothing else. A release in Select mode with that action chosen either opens no menu, or
  runs \<open>copy_selection\<close> in a state whose selection is not empty; the handler then resets
  the press point and the page of the selection.
\<close>

lemma copy_reached_with_selection:
  assumes "tool_mode t \<noteq> Highlight"
  shows "handle_selection_release e v t Copy_Text
       = t\<lparr>rubberband_shown := False, origin_point := (0, 0), start_selection_page := None\<rparr>
     \<or> (\<exists>t'. selection_truthy (selected_quads t')
          \<and> handle_selection_release e v t Copy_Text
              = (copy_selection e t')\<lparr>rubberband_shown := False, origin_point := (0, 0),
                                      start_selection_page := None\<rparr>)"
proof (cases "use_linear_selection t \<and> selection_truthy (selected_quads t)")
  case True
  with assms have "handle_selection_release e v t Copy_Text
      = (copy_selection e t)\<lparr>rubberband_shown := False, origin_point := (0, 0),
                              start_selection_page := None\<rparr>"
    by (simp add: handle_selection_release_def show_context_menu_def Let_def)
  with True show ?thesis by blast
next
  case False
  show ?thesis
  proof (cases "qrect_width (rubberband t) > 5")
    case wide: True
    show ?thesis
    proof (cases "start_selection_page t")
      case None
      with assms False wide show ?thesis
        by (auto simp: handle_selection_release_def process_box_menu_def Let_def)
    next
      case (Some r)
      show ?thesis
      proof (cases "box_pdf_rect v t r (rubberband t)")
        case None
        with assms False wide Some show ?thesis
          by (auto simp: handle_selection_release_def process_box_menu_def Let_def)
      next
        case (Some pdf_rect)
        define sel where "sel =
          (case Option.bind (page_obj t (ref_page r)) (\<lambda>pg. get_quads_clip pg pdf_rect) of
             None \<Rightarrow> SelRect pdf_rect
           | Some qs \<Rightarrow> if qs \<noteq> [] then SelQuads qs else SelRect pdf_rect)"
        have truthy: "selection_truthy (selected_quads (t\<lparr>selected_quads := sel\<rparr>))"
          by (simp add: sel_def selection_truthy_def split: option.splits)
        have "handle_selection_release e v t Copy_Text
            = (copy_selection e (t\<lparr>selected_quads := sel\<rparr>))
                \<lparr>rubberband_shown := False, origin_point := (0, 0), start_selection_page := None\<rparr>"
          using assms False wide \<open>start_selection_page t = Some r\<close> Some
          by (auto simp: handle_selection_release_def process_box_menu_def show_context_menu_def
              Let_def sel_def)
        with truthy show ?thesis by blast
      qed
    qed
  next
    case narrow: False
    with assms False show ?thesis
      by (auto simp: handle_selection_release_def Let_def)
  qed
qed





section \<open>Degenerate gestures in Highlight mode\<close>






















end
